theory Spec2Isabelle
  imports Complex_Main "HOL-Library.Multiset"
begin

section \<open>Passthrough optimizer (package logicalplan)\<close>

subsection \<open>Labels and matchers\<close>

text \<open>
  \<open>labels.Labels\<close> of the Prometheus library is a slice of name/value pairs. \<open>Get\<close>
  returns the value stored under a name, or the empty string when the name is absent;
  \<open>Has\<close> tells whether the name is present.
\<close>

type_synonym Labels = "(string \<times> string) list"

definition Get :: "Labels \<Rightarrow> string \<Rightarrow> string" where
  "Get ls name = (case map_of ls name of Some v \<Rightarrow> v | None \<Rightarrow> [])"

definition Has :: "Labels \<Rightarrow> string \<Rightarrow> bool" where
  "Has ls name = (map_of ls name \<noteq> None)"

text \<open>
  A \<open>labels.Matcher\<close> is used through its label name and its method \<open>Matches\<close>, the
  predicate on a label value.
\<close>

record Matcher =
  Name :: string
  Matches :: "string \<Rightarrow> bool"

text \<open>The inner loop of \<open>labelSetsMatch\<close>: the value of \<open>notMatched\<close> when it ends.\<close>

fun notMatchedLoop :: "Matcher list \<Rightarrow> Labels \<Rightarrow> bool" where
  "notMatchedLoop [] ls = False"
| "notMatchedLoop (m # ms) ls =
     (if Has ls (Name m) \<and> \<not> Matches m (Get ls (Name m)) then True
      else notMatchedLoop ms ls)"

text \<open>The outer loop: returns true at the first label set that no matcher fails.\<close>

fun lsetLoop :: "Matcher list \<Rightarrow> Labels list \<Rightarrow> bool" where
  "lsetLoop matchers [] = False"
| "lsetLoop matchers (ls # lset) =
     (if \<not> notMatchedLoop matchers ls then True else lsetLoop matchers lset)"

definition labelSetsMatch :: "Matcher list \<Rightarrow> Labels list \<Rightarrow> bool" where
  "labelSetsMatch matchers lset =
     (if length lset = 0 then True else lsetLoop matchers lset)"

subsection \<open>Remote engines and query options\<close>

text \<open>
  \<open>api.RemoteEngine\<close> as the optimizer reads it: the covered time range in milliseconds
  and the label sets. A \<open>time.Time\<close> is kept as nanoseconds since the Unix epoch, and
  \<open>UnixMilli\<close> rounds it down to milliseconds. The timestamps are only compared.
\<close>

record RemoteEngine =
  MinT :: int
  MaxT :: int
  LabelSets :: "Labels list"

type_synonym Time = int

definition UnixMilli :: "Time \<Rightarrow> int" where
  "UnixMilli t = t div 1000000"

record Options =
  Start :: Time
  End :: Time

definition matchingEngineTime :: "RemoteEngine \<Rightarrow> Options \<Rightarrow> bool" where
  "matchingEngineTime e opts =
     (\<not> (UnixMilli (Start opts) > MaxT e \<or> UnixMilli (End opts) < MinT e))"

subsection \<open>Logical plan nodes\<close>

text \<open>
  Modelled from the spec: the node types of the logical plan, \<open>Clone\<close> and
  \<open>TraverseBottomUp\<close> are declared in other files of package logicalplan. The spec lists the variants vector-selector, aggregation, binary-op
  and remote-execution; \<open>Operator\<close> stands for every other variant, with its children.
  The wrapped sub-plan of a remote-execution node is a subtree of the plan.
\<close>

datatype Node =
    VectorSelector (LabelMatchers: "Matcher list")
  | Aggregation Node
  | Binary Node Node
  | RemoteExecution (Engine: RemoteEngine) (Query: Node)
      (QueryRangeStart: Time) (QueryRangeEnd: Time)
  | Operator string "Node list"

text \<open>
  Modelled from the spec: \<open>Clone\<close> produces a deep, independent copy. On values the
  copy is rebuilt node by node.
\<close>

fun Clone :: "Node \<Rightarrow> Node" where
  "Clone (VectorSelector ms) = VectorSelector ms"
| "Clone (Aggregation n) = Aggregation (Clone n)"
| "Clone (Binary l r) = Binary (Clone l) (Clone r)"
| "Clone (RemoteExecution e q s t) = RemoteExecution e (Clone q) s t"
| "Clone (Operator k cs) = Operator k (map Clone cs)"

text \<open>
  Modelled from the spec: the bottom-up traversal visits all children before a parent and
  may replace any node in place through the callback, which receives the parent and the
  current node. The callback of the model returns the node that stands in place of the
  current one and threads the variables it captures as a state. Its boolean result, which
  the spec does not describe and which is always false in \<open>Optimize\<close>, is left out.
\<close>

fun TraverseBottomUp ::
    "Node option \<Rightarrow> Node \<Rightarrow> (Node option \<Rightarrow> Node \<Rightarrow> 'st \<Rightarrow> Node \<times> 'st) \<Rightarrow> 'st \<Rightarrow> Node \<times> 'st"
  and TraverseChildren ::
    "Node option \<Rightarrow> Node list \<Rightarrow> (Node option \<Rightarrow> Node \<Rightarrow> 'st \<Rightarrow> Node \<times> 'st) \<Rightarrow> 'st
       \<Rightarrow> Node list \<times> 'st"
  where
  "TraverseBottomUp parent (VectorSelector ms) transform st =
     transform parent (VectorSelector ms) st"
| "TraverseBottomUp parent (Aggregation n) transform st =
     (case TraverseBottomUp (Some (Aggregation n)) n transform st of
        (n', st') \<Rightarrow> transform parent (Aggregation n') st')"
| "TraverseBottomUp parent (Binary l r) transform st =
     (case TraverseBottomUp (Some (Binary l r)) l transform st of
        (l', st1) \<Rightarrow>
          (case TraverseBottomUp (Some (Binary l r)) r transform st1 of
             (r', st2) \<Rightarrow> transform parent (Binary l' r') st2))"
| "TraverseBottomUp parent (RemoteExecution e q s t) transform st =
     (case TraverseBottomUp (Some (RemoteExecution e q s t)) q transform st of
        (q', st') \<Rightarrow> transform parent (RemoteExecution e q' s t) st')"
| "TraverseBottomUp parent (Operator k cs) transform st =
     (case TraverseChildren (Some (Operator k cs)) cs transform st of
        (cs', st') \<Rightarrow> transform parent (Operator k cs') st')"
| "TraverseChildren parent [] transform st = ([], st)"
| "TraverseChildren parent (c # cs) transform st =
     (case TraverseBottomUp parent c transform st of
        (c', st1) \<Rightarrow>
          (case TraverseChildren parent cs transform st1 of
             (cs', st2) \<Rightarrow> (c' # cs', st2)))"

subsection \<open>Optimize\<close>

record PassthroughOptimizer =
  Endpoints :: "RemoteEngine list"

text \<open>\<open>annotations.Annotations\<close>; \<open>Optimize\<close> only ever returns nil, the empty list.\<close>

type_synonym Annotations = "string list"

text \<open>
  The loop over the engines inside the traversal callback: an engine whose label sets do
  not match is skipped, every other one is appended to \<open>matchingLabelsEngines\<close>.
\<close>

fun appendMatching :: "Matcher list \<Rightarrow> RemoteEngine list \<Rightarrow> RemoteEngine list \<Rightarrow> RemoteEngine list" where
  "appendMatching ms [] matchingLabelsEngines = matchingLabelsEngines"
| "appendMatching ms (e # engines) matchingLabelsEngines =
     (if \<not> labelSetsMatch ms (LabelSets e) then appendMatching ms engines matchingLabelsEngines
      else appendMatching ms engines (matchingLabelsEngines @ [e]))"

text \<open>The callback handed to \<open>TraverseBottomUp\<close>; it never replaces the current node.\<close>

fun collectCallback ::
    "RemoteEngine list \<Rightarrow> Node option \<Rightarrow> Node \<Rightarrow> RemoteEngine list \<Rightarrow> Node \<times> RemoteEngine list" where
  "collectCallback engines parent (VectorSelector ms) matchingLabelsEngines =
     (VectorSelector ms, appendMatching ms engines matchingLabelsEngines)"
| "collectCallback engines parent current matchingLabelsEngines =
     (current, matchingLabelsEngines)"

definition Optimize :: "PassthroughOptimizer \<Rightarrow> Node \<Rightarrow> Options \<Rightarrow> Node \<times> Annotations" where
  "Optimize m plan opts =
     (let engines = Endpoints m in
      if length engines = 1 then
        (if \<not> matchingEngineTime (engines ! 0) opts then (plan, [])
         else (RemoteExecution (engines ! 0) (Clone plan) (Start opts) (End opts), []))
      else if length engines = 0 then (plan, [])
      else
        (case TraverseBottomUp None plan (collectCallback engines) [] of
           (plan', matchingLabelsEngines) \<Rightarrow>
             if length matchingLabelsEngines = 1
                \<and> matchingEngineTime (matchingLabelsEngines ! 0) opts
             then (RemoteExecution (matchingLabelsEngines ! 0) (Clone plan')
                     (Start opts) (End opts), [])
             else (plan', [])))"

section \<open>Histogram quantile estimation (package function)\<close>

subsection \<open>float64\<close>

text \<open>
  A \<open>float64\<close> is NaN, an infinity or a finite number. The comparisons are those of
  IEEE 754: every comparison with NaN is false. The arithmetic on finite numbers is exact,
  without rounding or overflow, and the two zeros are one value; this agrees with the
  machine where the operands and the result are representable, as they are for the
  literals evaluated below. In \<open>bucketQuantile\<close> rounding can only touch the sums of the
  counts of buckets with equal bounds, the rank and the interpolated value; the checks on
  the quantile and on the bounds, and the whole of the repair loop, only compare and copy.
\<close>

datatype float64 = NaN | NInf | Fin real | PInf

fun isNaN :: "float64 \<Rightarrow> bool" where
  "isNaN NaN = True"
| "isNaN _ = False"

text \<open>\<open>math.IsInf(f, +1)\<close>.\<close>

fun isInf :: "float64 \<Rightarrow> bool" where
  "isInf PInf = True"
| "isInf _ = False"

text \<open>\<open>a < b\<close>, \<open>a == b\<close>, \<open>a <= b\<close> and \<open>a >= b\<close> on \<open>float64\<close>.\<close>

fun flt :: "float64 \<Rightarrow> float64 \<Rightarrow> bool" where
  "flt NaN b = False"
| "flt a NaN = False"
| "flt a NInf = False"
| "flt NInf b = True"
| "flt PInf b = False"
| "flt (Fin x) PInf = True"
| "flt (Fin x) (Fin y) = (x < y)"

definition feq :: "float64 \<Rightarrow> float64 \<Rightarrow> bool" where
  "feq a b = (\<not> isNaN a \<and> a = b)"

definition fle :: "float64 \<Rightarrow> float64 \<Rightarrow> bool" where
  "fle a b = (flt a b \<or> feq a b)"

definition fge :: "float64 \<Rightarrow> float64 \<Rightarrow> bool" where
  "fge a b = fle b a"

fun fneg :: "float64 \<Rightarrow> float64" where
  "fneg NaN = NaN"
| "fneg NInf = PInf"
| "fneg PInf = NInf"
| "fneg (Fin x) = Fin (- x)"

fun fabs :: "float64 \<Rightarrow> float64" where
  "fabs NaN = NaN"
| "fabs NInf = PInf"
| "fabs PInf = PInf"
| "fabs (Fin x) = Fin \<bar>x\<bar>"

fun fadd :: "float64 \<Rightarrow> float64 \<Rightarrow> float64" where
  "fadd NaN b = NaN"
| "fadd a NaN = NaN"
| "fadd NInf PInf = NaN"
| "fadd PInf NInf = NaN"
| "fadd NInf b = NInf"
| "fadd a NInf = NInf"
| "fadd PInf b = PInf"
| "fadd a PInf = PInf"
| "fadd (Fin x) (Fin y) = Fin (x + y)"

definition fsub :: "float64 \<Rightarrow> float64 \<Rightarrow> float64" where
  "fsub a b = fadd a (fneg b)"

text \<open>The sign of a value that is not NaN: -1, 0 or 1.\<close>

fun fsgn :: "float64 \<Rightarrow> int" where
  "fsgn NaN = 0"
| "fsgn NInf = - 1"
| "fsgn PInf = 1"
| "fsgn (Fin x) = (if x < 0 then - 1 else if x = 0 then 0 else 1)"

definition infOfSign :: "int \<Rightarrow> float64" where
  "infOfSign s = (if s < 0 then NInf else if s = 0 then NaN else PInf)"

fun fmul :: "float64 \<Rightarrow> float64 \<Rightarrow> float64" where
  "fmul NaN b = NaN"
| "fmul a NaN = NaN"
| "fmul (Fin x) (Fin y) = Fin (x * y)"
| "fmul a b = infOfSign (fsgn a * fsgn b)"

fun fdiv :: "float64 \<Rightarrow> float64 \<Rightarrow> float64" where
  "fdiv NaN b = NaN"
| "fdiv a NaN = NaN"
| "fdiv (Fin x) (Fin y) = (if y = 0 then infOfSign (fsgn (Fin x)) else Fin (x / y))"
| "fdiv (Fin x) b = Fin 0"
| "fdiv a (Fin y) = (if y < 0 then fneg a else a)"
| "fdiv a b = NaN"

text \<open>\<open>math.Min\<close>.\<close>

definition fmin :: "float64 \<Rightarrow> float64 \<Rightarrow> float64" where
  "fmin a b = (if isNaN a \<or> isNaN b then NaN else if flt b a then b else a)"

subsection \<open>Buckets and the library functions used on them\<close>

text \<open>
  Modelled from the spec: \<open>almost.Equal\<close> of the Prometheus library tells whether two
  counts differ by less than a relative tolerance. The library takes the difference
  relative to the sum of the magnitudes, capped at the largest float64, and absolutely
  when one of the two is zero or the sum is below the smallest normal number; two NaNs are
  equal.
\<close>

definition minNormal :: float64 where
  "minNormal = Fin (1 / 2 ^ 1022)"

definition MaxFloat64 :: float64 where
  "MaxFloat64 = Fin ((2 - 1 / 2 ^ 52) * 2 ^ 1023)"

definition almostEqual :: "float64 \<Rightarrow> float64 \<Rightarrow> float64 \<Rightarrow> bool" where
  "almostEqual a b epsilon =
     (if isNaN a \<and> isNaN b then True
      else if feq a b then True
      else
        (let absSum = fadd (fabs a) (fabs b);
             diff = fabs (fsub a b)
         in if feq a (Fin 0) \<or> feq b (Fin 0) \<or> flt absSum minNormal
            then flt diff (fmul epsilon minNormal)
            else flt (fdiv diff (fmin absSum MaxFloat64)) epsilon))"

definition smallDeltaTolerance :: float64 where
  "smallDeltaTolerance = Fin (1 / 10 ^ 12)"

record le =
  upperBound :: float64
  count :: float64

text \<open>\<open>buckets.Less\<close>, on the two elements it is called for.\<close>

definition Less :: "le \<Rightarrow> le \<Rightarrow> bool" where
  "Less a b = flt (upperBound a) (upperBound b)"

text \<open>
  \<open>sort.Sort\<close> of the Go library sorts the slice in place. On a slice of at most
  twelve elements it runs an insertion sort: each element in turn is swapped to the left
  while it is \<open>Less\<close> than its left neighbour. \<open>sortBuckets\<close> is that insertion sort, so
  it is the library's sort for slices of at most twelve elements only; on a longer slice
  the library runs another algorithm, which may leave buckets of equal or NaN upper bound
  in another order. The properties that speak of the order the sort leaves in the caller's
  slice are stated for slices of at most twelve elements. \<open>insertLeft\<close> takes the prefix
  sorted so far in reverse order. A NaN upper bound is \<open>Less\<close> than nothing and nothing is
  \<open>Less\<close> than it, so no element is moved across it: the result is ascending by upper
  bound when no upper bound is NaN, and need not be otherwise.
\<close>

fun insertLeft :: "le \<Rightarrow> le list \<Rightarrow> le list" where
  "insertLeft x [] = [x]"
| "insertLeft x (y # ys) = (if Less x y then y # insertLeft x ys else x # y # ys)"

definition sortBuckets :: "le list \<Rightarrow> le list" where
  "sortBuckets buckets = rev (foldl (\<lambda>prefix x. insertLeft x prefix) [] buckets)"

text \<open>\<open>sort.Search\<close> of the Go library: binary search on the indices below \<open>n\<close>.\<close>

function searchLoop :: "(nat \<Rightarrow> bool) \<Rightarrow> nat \<Rightarrow> nat \<Rightarrow> nat" where
  "searchLoop f i j =
     (if i < j then
        (let h = (i + j) div 2
         in if \<not> f h then searchLoop f (h + 1) j else searchLoop f i h)
      else i)"
  by pat_completeness auto
termination
  by (relation "measure (\<lambda>(f, i, j). j - i)") auto

definition Search :: "nat \<Rightarrow> (nat \<Rightarrow> bool) \<Rightarrow> nat" where
  "Search n f = searchLoop f 0 n"

subsection \<open>coalesceBuckets\<close>

text \<open>The run-time panic of an index beyond the length of a slice.\<close>

datatype panic = IndexOutOfRange

text \<open>
  The loop of \<open>coalesceBuckets\<close> over \<open>buckets[1:]\<close>, with \<open>k\<close> the index of the
  element read; it writes into the slice it reads from. The result is the slice, the last
  bucket not yet written and the index \<open>i\<close>.
\<close>

function coalesceLoop :: "le list \<Rightarrow> le \<Rightarrow> nat \<Rightarrow> nat \<Rightarrow> le list \<times> le \<times> nat" where
  "coalesceLoop buckets lst i k =
     (if k < length buckets then
        (let b = buckets ! k
         in if feq (upperBound b) (upperBound lst)
            then coalesceLoop buckets (lst\<lparr>count := fadd (count lst) (count b)\<rparr>) i (k + 1)
            else coalesceLoop (buckets[i := lst]) b (i + 1) (k + 1))
      else (buckets, lst, i))"
  by pat_completeness auto
termination
  by (relation "measure (\<lambda>(buckets, lst, i, k). length buckets - k)") auto

text \<open>
  \<open>coalesceBuckets\<close> reads \<open>buckets[0]\<close>, which panics on an empty slice. It returns
  \<open>buckets[:i+1]\<close>, which shares its elements with the argument: the result is the whole
  slice as the caller sees it afterwards, and the length of the slice returned.
\<close>

definition coalesceBuckets :: "le list \<Rightarrow> panic + le list \<times> nat" where
  "coalesceBuckets buckets =
     (if length buckets = 0 then Inl IndexOutOfRange
      else
        (case coalesceLoop buckets (buckets ! 0) 0 1 of
           (buckets', lst, i) \<Rightarrow> Inr (buckets'[i := lst], i + 1)))"

subsection \<open>ensureMonotonicAndIgnoreSmallDeltas\<close>

function ensureLoop ::
    "le list \<Rightarrow> float64 \<Rightarrow> float64 \<Rightarrow> nat \<Rightarrow> bool \<Rightarrow> bool \<Rightarrow> le list \<times> bool \<times> bool" where
  "ensureLoop buckets tolerance prev i forcedMonotonic fixedPrecision =
     (if i < length buckets then
        (let curr = count (buckets ! i)
         in if feq curr prev
            then ensureLoop buckets tolerance prev (i + 1) forcedMonotonic fixedPrecision
            else if almostEqual prev curr tolerance
            then ensureLoop (buckets[i := (buckets ! i)\<lparr>count := prev\<rparr>]) tolerance prev (i + 1)
                   forcedMonotonic True
            else if flt curr prev
            then ensureLoop (buckets[i := (buckets ! i)\<lparr>count := prev\<rparr>]) tolerance prev (i + 1)
                   True fixedPrecision
            else ensureLoop buckets tolerance curr (i + 1) forcedMonotonic fixedPrecision)
      else (buckets, forcedMonotonic, fixedPrecision))"
  by pat_completeness auto
termination
  by (relation "measure (\<lambda>(buckets, tolerance, prev, i, fm, fp). length buckets - i)") auto

text \<open>
  The repaired slice, \<open>forcedMonotonic\<close> and \<open>fixedPrecision\<close>; reading
  \<open>buckets[0]\<close> panics on an empty slice.
\<close>

definition ensureMonotonicAndIgnoreSmallDeltas ::
    "le list \<Rightarrow> float64 \<Rightarrow> panic + le list \<times> bool \<times> bool" where
  "ensureMonotonicAndIgnoreSmallDeltas buckets tolerance =
     (if length buckets = 0 then Inl IndexOutOfRange
      else Inr (ensureLoop buckets tolerance (count (buckets ! 0)) 1 False False))"

subsection \<open>bucketQuantile\<close>

text \<open>
  The part of \<open>bucketQuantile\<close> after the repair: the length and observation checks, the
  rank, the search and the interpolation.
\<close>

definition rankAndInterpolate :: "float64 \<Rightarrow> le list \<Rightarrow> bool \<Rightarrow> bool \<Rightarrow> float64 \<times> bool \<times> bool" where
  "rankAndInterpolate q buckets forcedMonotonic fixedPrecision =
     (if length buckets < 2 then (NaN, False, False)
      else
        (let observations = count (buckets ! (length buckets - 1))
         in if feq observations (Fin 0) then (NaN, False, False)
            else
              (let rank = fmul q observations;
                   b = Search (length buckets - 1) (\<lambda>i. fge (count (buckets ! i)) rank)
               in if b = length buckets - 1
                  then (upperBound (buckets ! (length buckets - 2)), forcedMonotonic, fixedPrecision)
                  else if b = 0 \<and> fle (upperBound (buckets ! 0)) (Fin 0)
                  then (upperBound (buckets ! 0), forcedMonotonic, fixedPrecision)
                  else
                    (let bucketStart = (if b > 0 then upperBound (buckets ! (b - 1)) else Fin 0);
                         bucketEnd = upperBound (buckets ! b);
                         cnt = (if b > 0 then fsub (count (buckets ! b)) (count (buckets ! (b - 1)))
                                else count (buckets ! b));
                         rank' = (if b > 0 then fsub rank (count (buckets ! (b - 1))) else rank)
                     in (fadd bucketStart (fmul (fsub bucketEnd bucketStart) (fdiv rank' cnt)),
                         forcedMonotonic, fixedPrecision)))))"

text \<open>
  \<open>bucketQuantile\<close> returns the quantile with the two repair flags, or panics on the
  index \<open>len(buckets)-1\<close> of an empty slice; the panics of the two calls are passed
  on. The second component is the caller's slice as the call leaves it: the sort, the
  coalescing and the repair all write into it.
\<close>

definition bucketQuantile :: "float64 \<Rightarrow> le list \<Rightarrow> (panic + float64 \<times> bool \<times> bool) \<times> le list" where
  "bucketQuantile q buckets =
     (if isNaN q then (Inr (NaN, False, False), buckets)
      else if flt q (Fin 0) then (Inr (NInf, False, False), buckets)
      else if flt (Fin 1) q then (Inr (PInf, False, False), buckets)
      else
        (let sorted = sortBuckets buckets
         in if length sorted = 0 then (Inl IndexOutOfRange, sorted)
            else if \<not> isInf (upperBound (sorted ! (length sorted - 1)))
            then (Inr (NaN, False, False), sorted)
            else
              (case coalesceBuckets sorted of
                 Inl e \<Rightarrow> (Inl e, sorted)
               | Inr (shared, n) \<Rightarrow>
                   (case ensureMonotonicAndIgnoreSmallDeltas (take n shared) smallDeltaTolerance of
                      Inl e \<Rightarrow> (Inl e, shared)
                    | Inr (buckets', forcedMonotonic, fixedPrecision) \<Rightarrow>
                        (Inr (rankAndInterpolate q buckets' forcedMonotonic fixedPrecision),
                         buckets' @ drop n shared)))))"

section \<open>Range query execution (package engine)\<close>

text \<open>
  A step vector and its samples, as \<open>Exec\<close> reads them. The series id indexes a slice,
  so it is a natural number.
\<close>

record StepSample =
  ID :: nat
  Metric :: Labels
  V :: float64

record StepVector =
  T :: int
  Samples :: "StepSample list"

text \<open>A \<open>promql.Point\<close> is the pair of \<open>T\<close> and \<open>V\<close>; a \<open>promql.Series\<close> has a metric and points.\<close>

type_synonym Point = "int \<times> float64"

record Series =
  Metric' :: Labels
  Points :: "Point list"

type_synonym error = string

record Result =
  Value :: "Series list option"
  Err :: "error option"

text \<open>
  The operator tree behind \<open>q.plan\<close> is a state machine on a state \<open>'s\<close> that holds the
  operators, the pool and the context: \<open>Next\<close> returns a slice of step vectors (nil is
  \<open>None\<close>) and an error (nil is \<open>None\<close>), \<open>PutSamples\<close> and \<open>PutVectors\<close> are the
  calls on \<open>GetPool()\<close>.
\<close>

record 's VectorOperator =
  Next :: "'s \<Rightarrow> (StepVector list option \<times> error option) \<times> 's"
  PutSamples :: "StepSample list \<Rightarrow> 's \<Rightarrow> 's"
  PutVectors :: "StepVector list \<Rightarrow> 's \<Rightarrow> 's"

record 's rangeQuery =
  plan :: "'s VectorOperator"

definition newErrResult :: "error \<Rightarrow> Result" where
  "newErrResult err = \<lparr>Value = None, Err = Some err\<rparr>"

text \<open>
  The loop over the samples of one vector. Indexing \<open>seriesMap\<close> beyond its length
  panics. A nil entry is first set to a series without points, then the point is appended.
\<close>

fun addSamples :: "int \<Rightarrow> StepSample list \<Rightarrow> Series option list \<Rightarrow> panic + Series option list" where
  "addSamples t [] seriesMap = Inr seriesMap"
| "addSamples t (sample # samples) seriesMap =
     (if length seriesMap \<le> ID sample then Inl IndexOutOfRange
      else
        (let series = (case seriesMap ! ID sample of
                         None \<Rightarrow> \<lparr>Metric' = Metric sample, Points = []\<rparr>
                       | Some series \<Rightarrow> series)
         in addSamples t samples
              (seriesMap[ID sample := Some (series\<lparr>Points := Points series @ [(t, V sample)]\<rparr>)])))"

text \<open>The loop over the vectors of one call of \<open>Next\<close>.\<close>

fun addVectors ::
    "'s VectorOperator \<Rightarrow> StepVector list \<Rightarrow> 's \<Rightarrow> Series option list
       \<Rightarrow> panic + 's \<times> Series option list" where
  "addVectors p [] s seriesMap = Inr (s, seriesMap)"
| "addVectors p (vector # r) s seriesMap =
     (case addSamples (T vector) (Samples vector) seriesMap of
        Inl e \<Rightarrow> Inl e
      | Inr seriesMap' \<Rightarrow> addVectors p r (PutSamples p (Samples vector) s) seriesMap')"

text \<open>
  The loop of \<open>Exec\<close> ends by returning a result or by \<open>break\<close>; it may also panic, or run
  for ever when \<open>Next\<close> never returns nil or an error.
\<close>

datatype loopExit = Return Result | Break "Series option list"

partial_function (option) execLoop ::
    "'s VectorOperator \<Rightarrow> 's \<Rightarrow> Series option list \<Rightarrow> (panic + loopExit) option" where
  "execLoop p s seriesMap =
     (case Next p s of
        ((r, Some err), s') \<Rightarrow> Some (Inr (Return (newErrResult err)))
      | ((None, None), s') \<Rightarrow> Some (Inr (Break seriesMap))
      | ((Some r, None), s') \<Rightarrow>
          (case addVectors p r s' seriesMap of
             Inl e \<Rightarrow> Some (Inl e)
           | Inr (s'', seriesMap') \<Rightarrow> execLoop p (PutVectors p r s'') seriesMap'))"

text \<open>The loop that copies the entries of \<open>seriesMap\<close> that are not nil into the result.\<close>

fun collectSeries :: "Series option list \<Rightarrow> Series list" where
  "collectSeries [] = []"
| "collectSeries (None # seriesMap) = collectSeries seriesMap"
| "collectSeries (Some series # seriesMap) = series # collectSeries seriesMap"

text \<open>
  \<open>Exec\<close>, started in the state \<open>s\<close> of the operator tree. \<open>sortMatrix\<close> is
  \<open>sort.Sort\<close> on a \<open>promql.Matrix\<close>, which the Prometheus library orders by metric.
  The value is \<open>None\<close> when the loop does not end.
\<close>

definition Exec :: "'s rangeQuery \<Rightarrow> (Series list \<Rightarrow> Series list) \<Rightarrow> 's \<Rightarrow> (panic + Result) option" where
  "Exec q sortMatrix s =
     (case execLoop (plan q) s (replicate 3000 None) of
        None \<Rightarrow> None
      | Some (Inl e) \<Rightarrow> Some (Inl e)
      | Some (Inr (Return result)) \<Rightarrow> Some (Inr result)
      | Some (Inr (Break seriesMap)) \<Rightarrow>
          Some (Inr \<lparr>Value = Some (sortMatrix (collectSeries seriesMap)), Err = None\<rparr>))"

text \<open>
  \<open>reach p k s seriesMap\<close> is the state of the loop of \<open>Exec\<close> after \<open>k\<close> complete
  rounds from \<open>s\<close> and \<open>seriesMap\<close>, when each of the \<open>k\<close> calls of \<open>Next\<close> returned step
  vectors and no error and no round panicked: the state in which the next call of
  \<open>Next\<close> is made, and the accumulator at that moment.
\<close>

fun reach ::
    "'s VectorOperator \<Rightarrow> nat \<Rightarrow> 's \<Rightarrow> Series option list \<Rightarrow> ('s \<times> Series option list) option" where
  "reach p 0 s seriesMap = Some (s, seriesMap)"
| "reach p (Suc k) s seriesMap =
     (case Next p s of
        ((Some r, None), s') \<Rightarrow>
          (case addVectors p r s' seriesMap of
             Inl e \<Rightarrow> None
           | Inr (s'', seriesMap') \<Rightarrow> reach p k (PutVectors p r s'') seriesMap')
      | _ \<Rightarrow> None)"

section \<open>Definitions used to state the properties\<close>

text \<open>
  The label matchers of every vector-selector node of a plan, children before parents and
  siblings from left to right.
\<close>

fun selectorsBottomUp :: "Node \<Rightarrow> Matcher list list"
  and selectorsOfChildren :: "Node list \<Rightarrow> Matcher list list" where
  "selectorsBottomUp (VectorSelector ms) = [ms]"
| "selectorsBottomUp (Aggregation n) = selectorsBottomUp n"
| "selectorsBottomUp (Binary l r) = selectorsBottomUp l @ selectorsBottomUp r"
| "selectorsBottomUp (RemoteExecution e q s t) = selectorsBottomUp q"
| "selectorsBottomUp (Operator k cs) = selectorsOfChildren cs"
| "selectorsOfChildren [] = []"
| "selectorsOfChildren (c # cs) = selectorsBottomUp c @ selectorsOfChildren cs"

text \<open>
  The candidate list as the spec words it: for every vector selector in turn, every
  backend whose label sets match the selector, appended without deduplication.
\<close>

definition candidates :: "RemoteEngine list \<Rightarrow> Node \<Rightarrow> RemoteEngine list" where
  "candidates engines node =
     concat (map (\<lambda>ms. filter (\<lambda>e. labelSetsMatch ms (LabelSets e)) engines)
               (selectorsBottomUp node))"

text \<open>
  What the repair loop does to one count \<open>c\<close> whose predecessor ended with the count
  \<open>p\<close>: \<open>c'\<close> is the count it leaves, and the flags are the ones it returns.
\<close>

definition repairedAs :: "float64 \<Rightarrow> float64 \<Rightarrow> float64 \<Rightarrow> float64 \<Rightarrow> bool \<Rightarrow> bool \<Rightarrow> bool" where
  "repairedAs tol p c c' forced fixed =
     ((feq c p \<longrightarrow> c' = c)
      \<and> (\<not> feq c p \<and> almostEqual p c tol \<longrightarrow> c' = p \<and> fixed)
      \<and> (\<not> feq c p \<and> \<not> almostEqual p c tol \<and> flt c p \<longrightarrow> c' = p \<and> forced)
      \<and> (\<not> feq c p \<and> \<not> almostEqual p c tol \<and> \<not> flt c p \<longrightarrow> c' = c))"

text \<open>
  The buckets \<open>bucketQuantile\<close> ranks: sorted, coalesced and repaired, with the two flags
  of the repair.
\<close>

definition repairedBuckets :: "le list \<Rightarrow> panic + le list \<times> bool \<times> bool" where
  "repairedBuckets buckets =
     (case coalesceBuckets (sortBuckets buckets) of
        Inl e \<Rightarrow> Inl e
      | Inr (shared, n) \<Rightarrow>
          ensureMonotonicAndIgnoreSmallDeltas (take n shared) smallDeltaTolerance)"

text \<open>
  The step vectors the first \<open>k\<close> calls of \<open>Next\<close> hand to \<open>Exec\<close>, in the order of
  arrival, when the operator tree starts in the state \<open>s\<close>: every call that returns
  vectors without an error contributes them, and between two calls the samples of each
  vector and then the vectors go back to the pool.
\<close>

fun produced :: "'s VectorOperator \<Rightarrow> nat \<Rightarrow> 's \<Rightarrow> StepVector list" where
  "produced p 0 s = []"
| "produced p (Suc k) s =
     (case Next p s of
        ((Some r, None), s') \<Rightarrow>
          r @ produced p k (PutVectors p r (foldl (\<lambda>s vector. PutSamples p (Samples vector) s) s' r))
      | _ \<Rightarrow> [])"

text \<open>
  The matrix as the spec words it: every sample is merged into the accumulator of its
  series id, which is created at the first sample of that id with the labels of that
  sample, and a point of the timestamp of the vector and the value of the sample is
  appended. \<open>entries i vs\<close> lists, in the order of arrival, the labels and the point of
  every sample of id \<open>i\<close> in the vectors \<open>vs\<close>; \<open>seriesOf i vs\<close> is the series of that
  id, if it has a sample; the accumulated matrix lists the series of the ids below 3000
  that have one, by ascending id.
\<close>

definition entries :: "nat \<Rightarrow> StepVector list \<Rightarrow> (Labels \<times> Point) list" where
  "entries i vs =
     concat (map (\<lambda>v. map (\<lambda>x. (Metric x, (T v, V x))) (filter (\<lambda>x. ID x = i) (Samples v))) vs)"

definition seriesOf :: "nat \<Rightarrow> StepVector list \<Rightarrow> Series option" where
  "seriesOf i vs =
     (case entries i vs of
        [] \<Rightarrow> None
      | e # es \<Rightarrow> Some \<lparr>Metric' = fst e, Points = map snd (e # es)\<rparr>)"

definition accumulatedMatrix :: "StepVector list \<Rightarrow> Series list" where
  "accumulatedMatrix vs = List.map_filter (\<lambda>i. seriesOf i vs) [0..<3000]"

text \<open>What one sample does to the entry of its id in \<open>seriesMap\<close>.\<close>

definition addPoint :: "Series option \<Rightarrow> Labels \<times> Point \<Rightarrow> Series option" where
  "addPoint so e =
     Some (case so of
             None \<Rightarrow> \<lparr>Metric' = fst e, Points = [snd e]\<rparr>
           | Some series \<Rightarrow> series\<lparr>Points := Points series @ [snd e]\<rparr>)"

declare coalesceLoop.simps [simp del] ensureLoop.simps [simp del] searchLoop.simps [simp del]

section \<open>Properties of the passthrough optimizer\<close>

lemma notMatchedLoop_iff:
  "notMatchedLoop ms ls \<longleftrightarrow> (\<exists>m\<in>set ms. Has ls (Name m) \<and> \<not> Matches m (Get ls (Name m)))"
  by (induction ms) auto

lemma lsetLoop_iff: "lsetLoop ms lset \<longleftrightarrow> (\<exists>ls\<in>set lset. \<not> notMatchedLoop ms ls)"
  by (induction lset) auto

lemma Has_iff: "Has ls name \<longleftrightarrow> name \<in> fst ` set ls"
  by (simp add: Has_def map_of_eq_None_iff)

text \<open>
  C3. \<open>labelSetsMatch\<close> is true on the empty list of label sets. On a list that is not empty
  it is true exactly when some label set is failed by no matcher, where a matcher fails a
  label set only if the set has the matcher's name and the matcher rejects the value stored
  under it. For the matcher job = web it is false against the one set job = db and true
  against the sets job = db and job = web.
\<close>

theorem labelSetsMatch_spec:
  "labelSetsMatch matchers []
   \<and> (lset \<noteq> [] \<longrightarrow>
        (labelSetsMatch matchers lset \<longleftrightarrow>
           (\<exists>ls\<in>set lset. \<forall>m\<in>set matchers.
              \<not> (Name m \<in> fst ` set ls \<and> \<not> Matches m (Get ls (Name m))))))
   \<and> \<not> labelSetsMatch [\<lparr>Name = ''job'', Matches = (\<lambda>v. v = ''web'')\<rparr>] [[(''job'', ''db'')]]
   \<and> labelSetsMatch [\<lparr>Name = ''job'', Matches = (\<lambda>v. v = ''web'')\<rparr>]
        [[(''job'', ''db'')], [(''job'', ''web'')]]"
proof -
  have "labelSetsMatch matchers []"
    by (simp add: labelSetsMatch_def)
  moreover have "lset \<noteq> [] \<longrightarrow>
        (labelSetsMatch matchers lset \<longleftrightarrow>
           (\<exists>ls\<in>set lset. \<forall>m\<in>set matchers.
              \<not> (Name m \<in> fst ` set ls \<and> \<not> Matches m (Get ls (Name m)))))"
    by (simp add: labelSetsMatch_def lsetLoop_iff notMatchedLoop_iff Has_iff)
  moreover have "\<not> labelSetsMatch [\<lparr>Name = ''job'', Matches = (\<lambda>v. v = ''web'')\<rparr>]
        [[(''job'', ''db'')]]"
    by (simp add: labelSetsMatch_def Has_def Get_def)
  moreover have "labelSetsMatch [\<lparr>Name = ''job'', Matches = (\<lambda>v. v = ''web'')\<rparr>]
        [[(''job'', ''db'')], [(''job'', ''web'')]]"
    by (simp add: labelSetsMatch_def Has_def Get_def)
  ultimately show ?thesis by blast
qed

theorem labelSetsMatch_spec_witness:
  "[[(''env'', ''prod'')], [(''job'', ''web'')]] \<noteq> []
   \<and> labelSetsMatch [\<lparr>Name = ''job'', Matches = (\<lambda>v. v = ''db'')\<rparr>]
        [[(''env'', ''prod'')], [(''job'', ''web'')]]
   \<and> (\<exists>ls\<in>set [[(''env'', ''prod'')], [(''job'', ''web'')]].
         \<forall>m\<in>set [\<lparr>Name = ''job'', Matches = (\<lambda>v. v = ''db'')\<rparr>].
            \<not> (Name m \<in> fst ` set ls \<and> \<not> Matches m (Get ls (Name m))))"
  using labelSetsMatch_spec [of "[\<lparr>Name = ''job'', Matches = (\<lambda>v. v = ''db'')\<rparr>]"
      "[[(''env'', ''prod'')], [(''job'', ''web'')]]"]
  by (simp add: labelSetsMatch_def Has_def Get_def)

lemma Clone_id: "Clone n = n"
  by (induction n) (simp_all add: map_idI)

lemma appendMatching_filter:
  "appendMatching ms engines acc = acc @ filter (\<lambda>e. labelSetsMatch ms (LabelSets e)) engines"
  by (induction engines arbitrary: acc) auto

lemma Traverse_collect:
  "TraverseBottomUp parent n (collectCallback engines) acc
     = (n, acc @ concat (map (\<lambda>ms. filter (\<lambda>e. labelSetsMatch ms (LabelSets e)) engines)
                          (selectorsBottomUp n)))"
  "TraverseChildren parent' cs (collectCallback engines) acc
     = (cs, acc @ concat (map (\<lambda>ms. filter (\<lambda>e. labelSetsMatch ms (LabelSets e)) engines)
                           (selectorsOfChildren cs)))"
  by (induction n and cs arbitrary: parent acc and parent' acc
        rule: selectorsBottomUp_selectorsOfChildren.induct)
     (simp_all add: appendMatching_filter)

lemma Node_not_wrapped: "RemoteExecution e n a b \<noteq> n"
proof
  assume "RemoteExecution e n a b = n"
  then have "size (RemoteExecution e n a b) = size n" by simp
  then show False by simp
qed

text \<open>
  C1. With at most one backend \<open>Optimize\<close> is a three-way case split: with no backend it
  returns the plan unchanged; with one backend whose range does not intersect the query
  range, tested as not (startMs > MaxT or endMs < MinT) on millisecond timestamps, it
  returns the plan unchanged; with one backend whose range intersects it returns a
  remote-execution node with that backend, a clone of the plan (equal to the plan) and the
  start and end of the query.
\<close>

theorem Optimize_at_most_one_engine:
  assumes "length (Endpoints m) \<le> 1"
  shows "(Endpoints m = [] \<longrightarrow> Optimize m node opts = (node, []))
    \<and> (\<forall>e. Endpoints m = [e] \<and> \<not> matchingEngineTime e opts \<longrightarrow>
          Optimize m node opts = (node, []))
    \<and> (\<forall>e. Endpoints m = [e] \<and> matchingEngineTime e opts \<longrightarrow>
          Optimize m node opts = (RemoteExecution e (Clone node) (Start opts) (End opts), [])
          \<and> Clone node = node)
    \<and> (\<forall>e. matchingEngineTime e opts
          \<longleftrightarrow> \<not> (UnixMilli (Start opts) > MaxT e \<or> UnixMilli (End opts) < MinT e))
    \<and> (Endpoints m = [] \<or> (\<exists>e. Endpoints m = [e]))"
proof -
  have "Endpoints m = [] \<or> (\<exists>e. Endpoints m = [e])"
    using assms by (cases "Endpoints m") auto
  then show ?thesis
    by (auto simp: Optimize_def Clone_id matchingEngineTime_def)
qed

theorem Optimize_at_most_one_engine_witness:
  "length (Endpoints \<lparr>Endpoints = []\<rparr>) \<le> 1
   \<and> Optimize \<lparr>Endpoints = []\<rparr> (VectorSelector []) \<lparr>Start = 0, End = 5000000\<rparr>
       = (VectorSelector [], [])
   \<and> length (Endpoints \<lparr>Endpoints = [\<lparr>MinT = 0, MaxT = 1000, LabelSets = []\<rparr>]\<rparr>) \<le> 1
   \<and> matchingEngineTime \<lparr>MinT = 0, MaxT = 1000, LabelSets = []\<rparr> \<lparr>Start = 0, End = 5000000\<rparr>
   \<and> Optimize \<lparr>Endpoints = [\<lparr>MinT = 0, MaxT = 1000, LabelSets = []\<rparr>]\<rparr> (VectorSelector [])
         \<lparr>Start = 0, End = 5000000\<rparr>
       = (RemoteExecution \<lparr>MinT = 0, MaxT = 1000, LabelSets = []\<rparr> (VectorSelector []) 0 5000000, [])
   \<and> \<not> matchingEngineTime \<lparr>MinT = 7, MaxT = 1000, LabelSets = []\<rparr> \<lparr>Start = 0, End = 5000000\<rparr>
   \<and> Optimize \<lparr>Endpoints = [\<lparr>MinT = 7, MaxT = 1000, LabelSets = []\<rparr>]\<rparr> (VectorSelector [])
         \<lparr>Start = 0, End = 5000000\<rparr>
       = (VectorSelector [], [])"
  using Optimize_at_most_one_engine [of "\<lparr>Endpoints = []\<rparr>" "VectorSelector []"
      "\<lparr>Start = 0, End = 5000000\<rparr>"]
    Optimize_at_most_one_engine [of "\<lparr>Endpoints = [\<lparr>MinT = 0, MaxT = 1000, LabelSets = []\<rparr>]\<rparr>"
      "VectorSelector []" "\<lparr>Start = 0, End = 5000000\<rparr>"]
    Optimize_at_most_one_engine [of "\<lparr>Endpoints = [\<lparr>MinT = 7, MaxT = 1000, LabelSets = []\<rparr>]\<rparr>"
      "VectorSelector []" "\<lparr>Start = 0, End = 5000000\<rparr>"]
  by (simp add: UnixMilli_def)

text \<open>
  C2. With two or more backends \<open>Optimize\<close> collects, over the bottom-up traversal, for
  every vector selector every backend whose label sets match it, in one list without
  deduplication. It returns a remote-execution node with a clone of the whole plan for the
  single candidate if and only if the list has exactly one element and that backend's time
  coverage intersects the query range; in every other case it returns the plan unchanged.
\<close>

theorem Optimize_many_engines:
  assumes "2 \<le> length (Endpoints m)"
  shows "Optimize m node opts =
      (if length (candidates (Endpoints m) node) = 1
          \<and> matchingEngineTime (hd (candidates (Endpoints m) node)) opts
       then (RemoteExecution (hd (candidates (Endpoints m) node)) (Clone node)
               (Start opts) (End opts), [])
       else (node, []))
    \<and> ((\<exists>e. fst (Optimize m node opts) = RemoteExecution e (Clone node) (Start opts) (End opts))
         \<longleftrightarrow> length (candidates (Endpoints m) node) = 1
             \<and> matchingEngineTime (hd (candidates (Endpoints m) node)) opts)"
proof -
  define cands where "cands = candidates (Endpoints m) node"
  have ne: "length (Endpoints m) \<noteq> 1" "length (Endpoints m) \<noteq> 0"
    using assms by auto
  have tr: "TraverseBottomUp None node (collectCallback (Endpoints m)) [] = (node, cands)"
    by (simp add: Traverse_collect candidates_def cands_def)
  have opt: "Optimize m node opts =
      (if length cands = 1 \<and> matchingEngineTime (cands ! 0) opts
       then (RemoteExecution (cands ! 0) (Clone node) (Start opts) (End opts), [])
       else (node, []))"
    using ne by (simp add: Optimize_def tr Let_def del: One_nat_def)
  have hd0: "length cands = 1 \<Longrightarrow> cands ! 0 = hd cands"
    by (cases cands) auto
  have eq: "Optimize m node opts =
      (if length cands = 1 \<and> matchingEngineTime (hd cands) opts
       then (RemoteExecution (hd cands) (Clone node) (Start opts) (End opts), [])
       else (node, []))"
    unfolding opt using hd0 by (cases "length cands = 1") simp_all
  have "(\<exists>e. fst (Optimize m node opts) = RemoteExecution e (Clone node) (Start opts) (End opts))
         \<longleftrightarrow> length cands = 1 \<and> matchingEngineTime (hd cands) opts"
    unfolding eq using Node_not_wrapped[of _ node "Start opts" "End opts"]
    by (auto simp: Clone_id)
  with eq show ?thesis unfolding cands_def by blast
qed

theorem Optimize_many_engines_witness:
  "2 \<le> length (Endpoints \<lparr>Endpoints = [\<lparr>MinT = 0, MaxT = 1000, LabelSets = [[(''job'', ''web'')]]\<rparr>,
                                        \<lparr>MinT = 0, MaxT = 1000, LabelSets = [[(''job'', ''db'')]]\<rparr>]\<rparr>)
   \<and> Optimize \<lparr>Endpoints = [\<lparr>MinT = 0, MaxT = 1000, LabelSets = [[(''job'', ''web'')]]\<rparr>,
                            \<lparr>MinT = 0, MaxT = 1000, LabelSets = [[(''job'', ''db'')]]\<rparr>]\<rparr>
        (Aggregation (VectorSelector [\<lparr>Name = ''job'', Matches = (\<lambda>v. v = ''web'')\<rparr>]))
        \<lparr>Start = 0, End = 5000000\<rparr>
     = (RemoteExecution \<lparr>MinT = 0, MaxT = 1000, LabelSets = [[(''job'', ''web'')]]\<rparr>
          (Aggregation (VectorSelector [\<lparr>Name = ''job'', Matches = (\<lambda>v. v = ''web'')\<rparr>]))
          0 5000000, [])"
  using Optimize_many_engines [of
      "\<lparr>Endpoints = [\<lparr>MinT = 0, MaxT = 1000, LabelSets = [[(''job'', ''web'')]]\<rparr>,
                     \<lparr>MinT = 0, MaxT = 1000, LabelSets = [[(''job'', ''db'')]]\<rparr>]\<rparr>"
      "Aggregation (VectorSelector [\<lparr>Name = ''job'', Matches = (\<lambda>v. v = ''web'')\<rparr>])"
      "\<lparr>Start = 0, End = 5000000\<rparr>"]
  by (simp add: candidates_def labelSetsMatch_def Has_def Get_def matchingEngineTime_def
      UnixMilli_def)

section \<open>Properties of the histogram quantile\<close>

subsection \<open>Comparisons\<close>

lemma flt_not_NaN: "flt a b \<Longrightarrow> \<not> isNaN a \<and> \<not> isNaN b"
  by (cases a; cases b) auto

lemma flt_one_not_neg: "flt (Fin 1) q \<Longrightarrow> \<not> isNaN q \<and> \<not> flt q (Fin 0)"
  by (cases q) auto

lemma float_trichotomy:
  "\<not> isNaN a \<Longrightarrow> \<not> isNaN b \<Longrightarrow> \<not> flt a b \<Longrightarrow> \<not> feq a b \<Longrightarrow> flt b a"
  by (cases a; cases b) (auto simp: feq_def)

lemma isInf_iff: "isInf x \<longleftrightarrow> x = PInf"
  by (cases x) auto

subsection \<open>Sorting and coalescing keep the length of the slice\<close>


lemma length_insertLeft: "length (insertLeft x ys) = Suc (length ys)"
  by (induction ys) auto

lemma mset_insertLeft: "mset (insertLeft x ys) = add_mset x (mset ys)"
  by (induction ys) auto

lemma mset_foldl_insertLeft:
  "mset (foldl (\<lambda>prefix x. insertLeft x prefix) acc bs) = mset acc + mset bs"
  by (induction bs arbitrary: acc) (auto simp: mset_insertLeft)

lemma mset_sortBuckets: "mset (sortBuckets bs) = mset bs"
  by (simp add: sortBuckets_def mset_foldl_insertLeft)

lemma length_sortBuckets: "length (sortBuckets bs) = length bs"
  using mset_sortBuckets[of bs] by (metis size_mset)

lemma set_sortBuckets: "set (sortBuckets bs) = set bs"
  using mset_sortBuckets[of bs] by (metis set_mset_mset)

lemma sortBuckets_Nil_iff: "sortBuckets bs = [] \<longleftrightarrow> bs = []"
  using length_sortBuckets[of bs] by (metis length_0_conv)

lemma coalesceLoop_inv:
  "i < k \<Longrightarrow> k \<le> length bs \<Longrightarrow> coalesceLoop bs lst i k = (arr, l, i')
     \<Longrightarrow> length arr = length bs \<and> i' < length bs"
proof (induction bs lst i k rule: coalesceLoop.induct)
  case (1 buckets lst i k)
  show ?case
  proof (cases "k < length buckets")
    case False
    then show ?thesis using "1.prems" by (simp add: coalesceLoop.simps)
  next
    case True
    show ?thesis
    proof (cases "feq (upperBound (buckets ! k)) (upperBound lst)")
      case eq: True
      have "coalesceLoop buckets (lst\<lparr>count := fadd (count lst) (count (buckets ! k))\<rparr>) i (k + 1) = (arr, l, i')"
        using "1.prems"(3) True eq by (simp add: coalesceLoop.simps[of buckets lst i k] Let_def)
      then show ?thesis using "1.IH"(1)[OF True refl eq] "1.prems" True by simp
    next
      case ne: False
      have "coalesceLoop (buckets[i := lst]) (buckets ! k) (i + 1) (k + 1) = (arr, l, i')"
        using "1.prems"(3) True ne by (simp add: coalesceLoop.simps[of buckets lst i k] Let_def)
      then show ?thesis using "1.IH"(2)[OF True refl ne] "1.prems" True by simp
    qed
  qed
qed

lemma coalesceBuckets_length:
  assumes "bs \<noteq> []"
  shows "\<exists>arr n. coalesceBuckets bs = Inr (arr, n)
           \<and> length arr = length bs \<and> 0 < n \<and> n \<le> length bs"
proof -
  obtain arr0 l i' where c: "coalesceLoop bs (bs ! 0) 0 1 = (arr0, l, i')"
    by (metis prod_cases3)
  have "length arr0 = length bs \<and> i' < length bs"
    using coalesceLoop_inv[OF _ _ c] assms(1) by (cases bs) auto
  then show ?thesis using assms c by (simp add: coalesceBuckets_def)
qed



subsection \<open>The repair loop\<close>

lemma repairedAs_mono:
  "repairedAs tol p c c' f g \<Longrightarrow> (f \<longrightarrow> f') \<Longrightarrow> (g \<longrightarrow> g') \<Longrightarrow> repairedAs tol p c c' f' g'"
  by (auto simp: repairedAs_def)

lemma ensureLoop_inv:
  "0 < i \<Longrightarrow> i \<le> length bs \<Longrightarrow> prev = count (bs ! (i - 1))
     \<Longrightarrow> ensureLoop bs tol prev i fm fp = (bs', fm', fp')
     \<Longrightarrow> length bs' = length bs
         \<and> (\<forall>j<i. bs' ! j = bs ! j)
         \<and> (\<forall>j<length bs. upperBound (bs' ! j) = upperBound (bs ! j))
         \<and> (\<forall>j. i \<le> j \<and> j < length bs \<longrightarrow>
               repairedAs tol (count (bs' ! (j - 1))) (count (bs ! j)) (count (bs' ! j)) fm' fp')
         \<and> (fm \<longrightarrow> fm') \<and> (fp \<longrightarrow> fp')"
proof (induction "length bs - i" arbitrary: bs prev i fm fp)
  case 0
  then have "i = length bs" by simp
  then show ?case using "0.prems" by (auto simp: ensureLoop.simps)
next
  case (Suc n)
  have True: "i < length bs" using Suc.hyps(2) by simp
  define curr where "curr = count (bs ! i)"
  define clamped where "clamped = bs[i := (bs ! i)\<lparr>count := prev\<rparr>]"
  have prevI: "count (bs ! (i - 1)) = prev" using Suc.prems by simp
  have unf: "ensureLoop bs tol prev i fm fp =
          (if feq curr prev then ensureLoop bs tol prev (i + 1) fm fp
           else if almostEqual prev curr tol
           then ensureLoop clamped tol prev (i + 1) fm True
           else if flt curr prev then ensureLoop clamped tol prev (i + 1) True fp
           else ensureLoop bs tol curr (i + 1) fm fp)"
    using True by (simp add: ensureLoop.simps[of bs tol prev i] Let_def curr_def clamped_def)
  have cl_len: "length clamped = length bs" by (simp add: clamped_def)
  have cl_i: "count (clamped ! i) = prev" "upperBound (clamped ! i) = upperBound (bs ! i)"
    using True by (simp_all add: clamped_def)
  have cl_other: "\<forall>j. j \<noteq> i \<longrightarrow> clamped ! j = bs ! j" by (simp add: clamped_def)
  have step: "length bs' = length bs
         \<and> (\<forall>j<i. bs' ! j = bs ! j)
         \<and> (\<forall>j<length bs. upperBound (bs' ! j) = upperBound (bs ! j))
         \<and> (\<forall>j. i \<le> j \<and> j < length bs \<longrightarrow>
               repairedAs tol (count (bs' ! (j - 1))) (count (bs ! j)) (count (bs' ! j)) fm' fp')
         \<and> (fm \<longrightarrow> fm') \<and> (fp \<longrightarrow> fp')"
    if run: "ensureLoop b1 tol p1 (i + 1) f1 g1 = (bs', fm', fp')"
      and len: "length b1 = length bs"
      and p1: "p1 = count (b1 ! i)"
      and other: "\<forall>j. j \<noteq> i \<longrightarrow> b1 ! j = bs ! j"
      and ub: "upperBound (b1 ! i) = upperBound (bs ! i)"
      and rep: "repairedAs tol prev curr (count (b1 ! i)) f1 g1"
      and fl: "fm \<longrightarrow> f1" "fp \<longrightarrow> g1"
    for b1 p1 f1 g1
  proof -
    have n: "n = length b1 - (i + 1)" using Suc.hyps(2) len by simp
    have IH: "length bs' = length b1
         \<and> (\<forall>j<i + 1. bs' ! j = b1 ! j)
         \<and> (\<forall>j<length b1. upperBound (bs' ! j) = upperBound (b1 ! j))
         \<and> (\<forall>j. i + 1 \<le> j \<and> j < length b1 \<longrightarrow>
               repairedAs tol (count (bs' ! (j - 1))) (count (b1 ! j)) (count (bs' ! j)) fm' fp')
         \<and> (f1 \<longrightarrow> fm') \<and> (g1 \<longrightarrow> fp')"
      using Suc.hyps(1)[OF n _ _ _ run] True len p1 by simp
    have a: "length bs' = length bs" using IH len by simp
    have b: "\<forall>j<i. bs' ! j = bs ! j" using IH other by simp
    have c: "\<forall>j<length bs. upperBound (bs' ! j) = upperBound (bs ! j)"
      using IH other ub len by metis
    have at_i: "repairedAs tol (count (bs' ! (i - 1))) (count (bs ! i)) (count (bs' ! i)) fm' fp'"
    proof -
      have "bs' ! (i - 1) = bs ! (i - 1)" using b Suc.prems(1) by simp
      moreover have "bs' ! i = b1 ! i" using IH by simp
      ultimately show ?thesis
        using repairedAs_mono[OF rep, of fm' fp'] IH prevI by (simp add: curr_def)
    qed
    have d: "\<forall>j. i \<le> j \<and> j < length bs \<longrightarrow>
               repairedAs tol (count (bs' ! (j - 1))) (count (bs ! j)) (count (bs' ! j)) fm' fp'"
    proof (intro allI impI)
      fix j assume j: "i \<le> j \<and> j < length bs"
      show "repairedAs tol (count (bs' ! (j - 1))) (count (bs ! j)) (count (bs' ! j)) fm' fp'"
      proof (cases "j = i")
        case True
        then show ?thesis using at_i by simp
      next
        case False
        then have "i + 1 \<le> j \<and> j < length b1" "b1 ! j = bs ! j" using j len other by auto
        then show ?thesis using IH by metis
      qed
    qed
    from a b c d IH fl show ?thesis by blast
  qed
  have res: "ensureLoop bs tol prev i fm fp = (bs', fm', fp')" by (rule Suc.prems(4))
  consider (same) "feq curr prev"
    | (almost) "\<not> feq curr prev" "almostEqual prev curr tol"
    | (lower) "\<not> feq curr prev" "\<not> almostEqual prev curr tol" "flt curr prev"
    | (keep) "\<not> feq curr prev" "\<not> almostEqual prev curr tol" "\<not> flt curr prev"
    by blast
  then show ?case
  proof cases
    case same
    then have "ensureLoop bs tol prev (i + 1) fm fp = (bs', fm', fp')" using res unf by simp
    moreover have "prev = count (bs ! i)" using same by (simp add: feq_def curr_def)
    moreover have "repairedAs tol prev curr (count (bs ! i)) fm fp"
      using same by (simp add: repairedAs_def curr_def)
    ultimately show ?thesis by (intro step[of bs prev fm fp]) simp_all
  next
    case almost
    then have "ensureLoop clamped tol prev (i + 1) fm True = (bs', fm', fp')" using res unf by simp
    moreover have "repairedAs tol prev curr (count (clamped ! i)) fm True"
      using almost cl_i by (simp add: repairedAs_def)
    ultimately show ?thesis using cl_len cl_i cl_other
      by (intro step[of clamped prev fm True]) simp_all
  next
    case lower
    then have "ensureLoop clamped tol prev (i + 1) True fp = (bs', fm', fp')" using res unf by simp
    moreover have "repairedAs tol prev curr (count (clamped ! i)) True fp"
      using lower cl_i by (simp add: repairedAs_def)
    ultimately show ?thesis using cl_len cl_i cl_other
      by (intro step[of clamped prev True fp]) simp_all
  next
    case keep
    then have "ensureLoop bs tol curr (i + 1) fm fp = (bs', fm', fp')" using res unf by simp
    moreover have "repairedAs tol prev curr (count (bs ! i)) fm fp"
      using keep by (simp add: repairedAs_def curr_def)
    ultimately show ?thesis by (intro step[of bs curr fm fp]) (simp_all add: curr_def)
  qed
qed

lemma ensure_Inr_iff:
  "(\<exists>r. ensureMonotonicAndIgnoreSmallDeltas buckets tol = Inr r) \<longleftrightarrow> buckets \<noteq> []"
  by (simp add: ensureMonotonicAndIgnoreSmallDeltas_def del: split_paired_Ex)

lemma ensure_unfold:
  assumes "ensureMonotonicAndIgnoreSmallDeltas buckets tol = Inr (bs', fm, fp)"
  shows "length bs' = length buckets
         \<and> (\<forall>j<1. bs' ! j = buckets ! j)
         \<and> (\<forall>j<length buckets. upperBound (bs' ! j) = upperBound (buckets ! j))
         \<and> (\<forall>j. 1 \<le> j \<and> j < length buckets \<longrightarrow>
               repairedAs tol (count (bs' ! (j - 1))) (count (buckets ! j)) (count (bs' ! j)) fm fp)
         \<and> (False \<longrightarrow> fm) \<and> (False \<longrightarrow> fp)"
proof -
  have ne: "buckets \<noteq> []" using assms ensure_Inr_iff by blast
  then have len: "1 \<le> length buckets" by (cases buckets) auto
  have run: "ensureLoop buckets tol (count (buckets ! 0)) 1 False False = (bs', fm, fp)"
    using assms ne by (simp add: ensureMonotonicAndIgnoreSmallDeltas_def)
  show ?thesis
    by (rule ensureLoop_inv[OF _ len _ run]) simp_all
qed

lemma ensure_length:
  "ensureMonotonicAndIgnoreSmallDeltas buckets tol = Inr (bs', fm, fp)
     \<Longrightarrow> length bs' = length buckets"
  using ensure_unfold[of buckets tol bs' fm fp] by simp

lemma ensure_nonNaN:
  assumes "ensureMonotonicAndIgnoreSmallDeltas buckets tol = Inr (bs', fm, fp)"
    and nn: "\<forall>b\<in>set buckets. \<not> isNaN (count b)"
  shows "j < length buckets \<Longrightarrow> \<not> isNaN (count (bs' ! j))"
proof (induction j)
  case 0
  then show ?case using ensure_unfold[OF assms(1)] nn by (simp add: nth_mem)
next
  case (Suc j)
  have r: "repairedAs tol (count (bs' ! j)) (count (buckets ! Suc j)) (count (bs' ! Suc j)) fm fp"
    using ensure_unfold[OF assms(1)] Suc.prems by (metis Suc_leI zero_less_Suc diff_Suc_1 One_nat_def)
  have "\<not> isNaN (count (bs' ! j))" using Suc by simp
  moreover have "\<not> isNaN (count (buckets ! Suc j))" using nn Suc.prems by (simp add: nth_mem)
  ultimately show ?case using r by (auto simp: repairedAs_def)
qed

lemma ensure_monotone:
  assumes "ensureMonotonicAndIgnoreSmallDeltas buckets tol = Inr (bs', fm, fp)"
    and nn: "\<forall>b\<in>set buckets. \<not> isNaN (count b)"
    and j: "j + 1 < length buckets"
  shows "fle (count (bs' ! j)) (count (bs' ! (j + 1)))"
proof -
  have r: "repairedAs tol (count (bs' ! j)) (count (buckets ! (j + 1))) (count (bs' ! (j + 1))) fm fp"
    using ensure_unfold[OF assms(1)] j by (metis add_diff_cancel_right' le_add2)
  have p: "\<not> isNaN (count (bs' ! j))" using ensure_nonNaN[OF assms(1,2), of j] j by simp
  have c: "\<not> isNaN (count (buckets ! (j + 1)))" using nn j by (simp add: nth_mem)
  have pp: "fle (count (bs' ! j)) (count (bs' ! j))" using p by (simp add: fle_def feq_def)
  consider (same) "feq (count (buckets ! (j + 1))) (count (bs' ! j))"
    | (clamp) "count (bs' ! (j + 1)) = count (bs' ! j)"
    | (keep) "\<not> feq (count (buckets ! (j + 1))) (count (bs' ! j))"
        "\<not> flt (count (buckets ! (j + 1))) (count (bs' ! j))"
        "count (bs' ! (j + 1)) = count (buckets ! (j + 1))"
    using r unfolding repairedAs_def by blast
  then show ?thesis
  proof cases
    case same
    then have "count (bs' ! (j + 1)) = count (bs' ! j)"
      using r p by (auto simp: repairedAs_def feq_def)
    then show ?thesis using pp by simp
  next
    case clamp
    then show ?thesis using pp by simp
  next
    case keep
    then have "flt (count (bs' ! j)) (count (buckets ! (j + 1)))"
      using float_trichotomy[OF c p] by blast
    then show ?thesis using keep(3) by (simp add: fle_def)
  qed
qed

subsection \<open>Evaluation on literals\<close>

lemma ae12: "\<not> almostEqual (Fin 1) (Fin 2) smallDeltaTolerance"
  by (simp add: almostEqual_def feq_def fsub_def Let_def minNormal_def MaxFloat64_def fmin_def smallDeltaTolerance_def)

lemma ae23: "\<not> almostEqual (Fin 2) (Fin 3) smallDeltaTolerance"
  by (simp add: almostEqual_def feq_def fsub_def Let_def minNormal_def MaxFloat64_def fmin_def smallDeltaTolerance_def)

lemma ae53: "\<not> almostEqual (Fin 5) (Fin 3) smallDeltaTolerance"
  by (simp add: almostEqual_def feq_def fsub_def Let_def minNormal_def MaxFloat64_def fmin_def smallDeltaTolerance_def)

lemma ae510: "\<not> almostEqual (Fin 5) (Fin 10) smallDeltaTolerance"
  by (simp add: almostEqual_def feq_def fsub_def Let_def minNormal_def MaxFloat64_def fmin_def smallDeltaTolerance_def)

lemma ae_NaN_right: "\<not> almostEqual (Fin x) NaN tol"
  by (cases tol) (simp_all add: almostEqual_def feq_def fsub_def Let_def fmin_def minNormal_def)

lemma ae_NaN_left: "\<not> almostEqual NaN (Fin x) tol"
  by (cases tol) (simp_all add: almostEqual_def feq_def fsub_def Let_def fmin_def minNormal_def)

lemma c4_sort: "sortBuckets [\<lparr>upperBound = Fin 1, count = Fin 1\<rparr>, \<lparr>upperBound = Fin 2, count = Fin 2\<rparr>,
        \<lparr>upperBound = PInf, count = Fin 3\<rparr>] = [\<lparr>upperBound = Fin 1, count = Fin 1\<rparr>, \<lparr>upperBound = Fin 2, count = Fin 2\<rparr>,
        \<lparr>upperBound = PInf, count = Fin 3\<rparr>]"
  by (simp add: sortBuckets_def Less_def)

lemma c4_coalesce: "coalesceBuckets [\<lparr>upperBound = Fin 1, count = Fin 1\<rparr>, \<lparr>upperBound = Fin 2, count = Fin 2\<rparr>,
        \<lparr>upperBound = PInf, count = Fin 3\<rparr>] = Inr ([\<lparr>upperBound = Fin 1, count = Fin 1\<rparr>, \<lparr>upperBound = Fin 2, count = Fin 2\<rparr>,
        \<lparr>upperBound = PInf, count = Fin 3\<rparr>], 3)"
  by (simp add: coalesceBuckets_def coalesceLoop.simps feq_def Let_def)

lemma c4_ensure: "ensureMonotonicAndIgnoreSmallDeltas [\<lparr>upperBound = Fin 1, count = Fin 1\<rparr>, \<lparr>upperBound = Fin 2, count = Fin 2\<rparr>,
        \<lparr>upperBound = PInf, count = Fin 3\<rparr>] smallDeltaTolerance = Inr ([\<lparr>upperBound = Fin 1, count = Fin 1\<rparr>, \<lparr>upperBound = Fin 2, count = Fin 2\<rparr>,
        \<lparr>upperBound = PInf, count = Fin 3\<rparr>], False, False)"
  by (simp add: ensureMonotonicAndIgnoreSmallDeltas_def ensureLoop.simps feq_def ae12 ae23 Let_def)

lemma c4_rank: "rankAndInterpolate (Fin (1/2)) [\<lparr>upperBound = Fin 1, count = Fin 1\<rparr>, \<lparr>upperBound = Fin 2, count = Fin 2\<rparr>,
        \<lparr>upperBound = PInf, count = Fin 3\<rparr>] False False = (Fin (3/2), False, False)"
  by (simp add: rankAndInterpolate_def feq_def fle_def fge_def fsub_def Search_def searchLoop.simps Let_def)

lemma bucketQuantile_literal:
  "bucketQuantile (Fin (1/2)) [\<lparr>upperBound = Fin 1, count = Fin 1\<rparr>, \<lparr>upperBound = Fin 2, count = Fin 2\<rparr>,
        \<lparr>upperBound = PInf, count = Fin 3\<rparr>] 
    = (Inr (Fin (3/2), False, False), [\<lparr>upperBound = Fin 1, count = Fin 1\<rparr>, \<lparr>upperBound = Fin 2, count = Fin 2\<rparr>,
        \<lparr>upperBound = PInf, count = Fin 3\<rparr>])"
  by (simp add: bucketQuantile_def c4_sort c4_coalesce c4_ensure c4_rank)

lemma repair_example:
  "ensureMonotonicAndIgnoreSmallDeltas
     [\<lparr>upperBound = Fin 1, count = Fin 5\<rparr>, \<lparr>upperBound = Fin 2, count = Fin 3\<rparr>,
      \<lparr>upperBound = PInf, count = Fin 10\<rparr>] smallDeltaTolerance
   = Inr ([\<lparr>upperBound = Fin 1, count = Fin 5\<rparr>, \<lparr>upperBound = Fin 2, count = Fin 5\<rparr>,
       \<lparr>upperBound = PInf, count = Fin 10\<rparr>], True, False)"
  by (simp add: ensureMonotonicAndIgnoreSmallDeltas_def ensureLoop.simps feq_def ae53 ae510 Let_def)

lemma repair_NaN_example:
  "ensureMonotonicAndIgnoreSmallDeltas
     [\<lparr>upperBound = Fin 1, count = Fin 5\<rparr>, \<lparr>upperBound = Fin 2, count = NaN\<rparr>,
      \<lparr>upperBound = PInf, count = Fin 3\<rparr>] smallDeltaTolerance
   = Inr ([\<lparr>upperBound = Fin 1, count = Fin 5\<rparr>, \<lparr>upperBound = Fin 2, count = NaN\<rparr>,
      \<lparr>upperBound = PInf, count = Fin 3\<rparr>], False, False)"
  by (simp add: ensureMonotonicAndIgnoreSmallDeltas_def ensureLoop.simps feq_def ae_NaN_left ae_NaN_right Let_def)

lemma repaired_single:
  "repairedBuckets [\<lparr>upperBound = PInf, count = Fin 5\<rparr>]
     = Inr ([\<lparr>upperBound = PInf, count = Fin 5\<rparr>], False, False)"
  by (simp add: repairedBuckets_def sortBuckets_def coalesceBuckets_def coalesceLoop.simps
      ensureMonotonicAndIgnoreSmallDeltas_def ensureLoop.simps)

lemma repaired_empty_histogram:
  "repairedBuckets [\<lparr>upperBound = Fin 1, count = Fin 0\<rparr>, \<lparr>upperBound = PInf, count = Fin 0\<rparr>]
     = Inr ([\<lparr>upperBound = Fin 1, count = Fin 0\<rparr>, \<lparr>upperBound = PInf, count = Fin 0\<rparr>], False, False)"
  by (simp add: repairedBuckets_def sortBuckets_def Less_def coalesceBuckets_def coalesceLoop.simps
      ensureMonotonicAndIgnoreSmallDeltas_def ensureLoop.simps feq_def Let_def)


lemma sort_unbounded:
  "sortBuckets [\<lparr>upperBound = Fin 2, count = Fin 2\<rparr>, \<lparr>upperBound = Fin 1, count = Fin 1\<rparr>]
    = [\<lparr>upperBound = Fin 1, count = Fin 1\<rparr>, \<lparr>upperBound = Fin 2, count = Fin 2\<rparr>]"
  by (simp add: sortBuckets_def Less_def)



subsection \<open>The claims on bucketQuantile\<close>

text \<open>
  C7. For every bucket slice, \<open>bucketQuantile\<close> on a quantile outside its domain returns
  a sentinel value and does not fail: NaN for q = NaN, -Inf for every q < 0 and +Inf for
  every q > 1, with both flags false.
\<close>

theorem bucketQuantile_out_of_domain:
  "fst (bucketQuantile NaN buckets) = Inr (NaN, False, False)
   \<and> (flt q (Fin 0) \<longrightarrow> fst (bucketQuantile q buckets) = Inr (NInf, False, False))
   \<and> (flt (Fin 1) q \<longrightarrow> fst (bucketQuantile q buckets) = Inr (PInf, False, False))"
  using flt_one_not_neg[of q] flt_not_NaN[of q "Fin 0"]
  by (auto simp: bucketQuantile_def)

theorem bucketQuantile_out_of_domain_witness:
  "flt (Fin (- 1)) (Fin 0) \<and> flt (Fin 1) (Fin 2)
   \<and> fst (bucketQuantile (Fin (- 1)) [\<lparr>upperBound = Fin 1, count = Fin 1\<rparr>,
        \<lparr>upperBound = PInf, count = Fin 3\<rparr>]) = Inr (NInf, False, False)
   \<and> fst (bucketQuantile (Fin 2) [\<lparr>upperBound = Fin 1, count = Fin 1\<rparr>,
        \<lparr>upperBound = PInf, count = Fin 3\<rparr>]) = Inr (PInf, False, False)"
  using bucketQuantile_out_of_domain [of "[\<lparr>upperBound = Fin 1, count = Fin 1\<rparr>,
        \<lparr>upperBound = PInf, count = Fin 3\<rparr>]" "Fin (- 1)"]
    bucketQuantile_out_of_domain [of "[\<lparr>upperBound = Fin 1, count = Fin 1\<rparr>,
        \<lparr>upperBound = PInf, count = Fin 3\<rparr>]" "Fin 2"]
  by simp

text \<open>
  C4, as amended. For the buckets 1:1, 2:2, +Inf:3 and q = 0.5 the rank is q * 3 = 1.5, the
  search selects the bucket at index 1, whose bound is 2, and the interpolation
  bucketStart + (bucketEnd - bucketStart) * (rank - previousCount) / (thisCount -
  previousCount) gives 1 + (2 - 1) * (1.5 - 1) / (2 - 1) = 1.5, which \<open>bucketQuantile\<close>
  returns with both flags false. All the numbers involved are binary fractions, so the
  machine computes them without rounding.
\<close>

theorem bucketQuantile_interpolates:
  "fst (bucketQuantile (Fin (1/2))
      [\<lparr>upperBound = Fin 1, count = Fin 1\<rparr>, \<lparr>upperBound = Fin 2, count = Fin 2\<rparr>,
       \<lparr>upperBound = PInf, count = Fin 3\<rparr>]) = Inr (Fin (3/2), False, False)
   \<and> fmul (Fin (1/2)) (Fin 3) = Fin (3/2)
   \<and> Search 2 (\<lambda>i. fge (count ([\<lparr>upperBound = Fin 1, count = Fin 1\<rparr>,
         \<lparr>upperBound = Fin 2, count = Fin 2\<rparr>, \<lparr>upperBound = PInf, count = Fin 3\<rparr>] ! i)) (Fin (3/2))) = 1
   \<and> upperBound ([\<lparr>upperBound = Fin 1, count = Fin 1\<rparr>,
         \<lparr>upperBound = Fin 2, count = Fin 2\<rparr>, \<lparr>upperBound = PInf, count = Fin 3\<rparr>] ! 1) = Fin 2
   \<and> fadd (Fin 1) (fmul (fsub (Fin 2) (Fin 1))
         (fdiv (fsub (Fin (3/2)) (Fin 1)) (fsub (Fin 2) (Fin 1)))) = Fin (3/2)"
  by (simp add: bucketQuantile_literal Search_def searchLoop.simps fge_def fle_def feq_def fsub_def Let_def)

text \<open>The value returned for these buckets is not 2.\<close>

theorem bucketQuantile_interpolates_counterexample:
  "map_sum id fst (fst (bucketQuantile (Fin (1/2))
      [\<lparr>upperBound = Fin 1, count = Fin 1\<rparr>, \<lparr>upperBound = Fin 2, count = Fin 2\<rparr>,
       \<lparr>upperBound = PInf, count = Fin 3\<rparr>])) \<noteq> Inr (Fin 2)"
  by (simp add: bucketQuantile_literal)

subsection \<open>Degenerate histograms\<close>

lemma repairedBuckets_Inr:
  assumes "buckets \<noteq> []"
  shows "\<exists>shared n bs' fm fp.
      coalesceBuckets (sortBuckets buckets) = Inr (shared, n)
      \<and> length shared = length buckets \<and> n \<le> length buckets
      \<and> repairedBuckets buckets = Inr (bs', fm, fp) \<and> length bs' = n"
proof -
  have ne: "sortBuckets buckets \<noteq> []" using assms by (simp add: sortBuckets_Nil_iff)
  from coalesceBuckets_length[OF ne] obtain shared n where
    c: "coalesceBuckets (sortBuckets buckets) = Inr (shared, n)"
    and cl: "length shared = length (sortBuckets buckets)" "0 < n"
      "n \<le> length (sortBuckets buckets)"
    by blast
  have "take n shared \<noteq> []" using cl by auto
  then obtain r where "ensureMonotonicAndIgnoreSmallDeltas (take n shared) smallDeltaTolerance = Inr r"
    using ensure_Inr_iff by blast
  then obtain bs' fm fp where
    e: "ensureMonotonicAndIgnoreSmallDeltas (take n shared) smallDeltaTolerance = Inr (bs', fm, fp)"
    by (metis prod_cases3)
  have len: "length bs' = n" using ensure_length[OF e] cl by simp
  have rb: "repairedBuckets buckets = Inr (bs', fm, fp)" by (simp add: repairedBuckets_def c e)
  show ?thesis
    using c cl len rb
    by (rule_tac x=shared in exI, rule_tac x=n in exI, rule_tac x=bs' in exI, rule_tac x=fm in exI,
        rule_tac x=fp in exI) (simp add: length_sortBuckets)
qed

lemma bucketQuantile_in_domain:
  assumes "\<not> isNaN q" "\<not> flt q (Fin 0)" "\<not> flt (Fin 1) q" "buckets \<noteq> []"
    and c: "coalesceBuckets (sortBuckets buckets) = Inr (shared, n)"
    and rb: "repairedBuckets buckets = Inr (bs', fm, fp)"
  shows "bucketQuantile q buckets =
     (if upperBound (last (sortBuckets buckets)) \<noteq> PInf
      then (Inr (NaN, False, False), sortBuckets buckets)
      else (Inr (rankAndInterpolate q bs' fm fp), bs' @ drop n shared))"
proof -
  have ne: "sortBuckets buckets \<noteq> []" using assms(4) by (simp add: sortBuckets_Nil_iff)
  then have l: "sortBuckets buckets ! (length (sortBuckets buckets) - Suc 0) = last (sortBuckets buckets)"
    by (simp add: last_conv_nth)
  have e: "ensureMonotonicAndIgnoreSmallDeltas (take n shared) smallDeltaTolerance = Inr (bs', fm, fp)"
    using rb by (simp add: repairedBuckets_def c)
  show ?thesis
    using assms(1-3) ne
    by (simp add: bucketQuantile_def Let_def l isInf_iff c e)
qed

lemma rankAndInterpolate_degenerate:
  "length bs < 2 \<or> feq (count (last bs)) (Fin 0) \<Longrightarrow> rankAndInterpolate q bs fm fp = (NaN, False, False)"
  by (cases "bs = []") (auto simp: rankAndInterpolate_def Let_def last_conv_nth)

text \<open>
  C5, as amended. For every quantile that is NaN or lies in [0, 1] and every bucket slice
  that is not empty, \<open>bucketQuantile\<close> returns NaN with both flags false, and no error,
  when the highest bucket after sorting has an upper bound other than +Inf (in particular
  when no bucket has the bound +Inf), when fewer than two buckets remain after coalescing
  and repair, or when the count of the top bucket is zero.
\<close>

theorem bucketQuantile_degenerate:
  assumes "\<not> flt q (Fin 0)" "\<not> flt (Fin 1) q" "buckets \<noteq> []"
  shows "(upperBound (last (sortBuckets buckets)) \<noteq> PInf \<longrightarrow>
            fst (bucketQuantile q buckets) = Inr (NaN, False, False))
    \<and> ((\<forall>b\<in>set buckets. upperBound b \<noteq> PInf) \<longrightarrow>
            fst (bucketQuantile q buckets) = Inr (NaN, False, False))
    \<and> (\<exists>bs' fm fp. repairedBuckets buckets = Inr (bs', fm, fp)
          \<and> (length bs' < 2 \<longrightarrow>
                fst (bucketQuantile q buckets) = Inr (NaN, False, False))
          \<and> (feq (count (last bs')) (Fin 0) \<longrightarrow>
                fst (bucketQuantile q buckets) = Inr (NaN, False, False)))"
proof -
  from repairedBuckets_Inr[OF assms(3)] obtain shared n bs' fm fp where
    c: "coalesceBuckets (sortBuckets buckets) = Inr (shared, n)"
    and rb: "repairedBuckets buckets = Inr (bs', fm, fp)"
    by blast
  have "last (sortBuckets buckets) \<in> set buckets"
    using assms(3) last_in_set[of "sortBuckets buckets"]
    by (simp add: sortBuckets_Nil_iff set_sortBuckets)
  then have all: "(\<forall>b\<in>set buckets. upperBound b \<noteq> PInf) \<longrightarrow>
      upperBound (last (sortBuckets buckets)) \<noteq> PInf"
    by blast
  have res: "upperBound (last (sortBuckets buckets)) \<noteq> PInf
        \<or> length bs' < 2 \<or> feq (count (last bs')) (Fin 0)
      \<Longrightarrow> fst (bucketQuantile q buckets) = Inr (NaN, False, False)"
  proof (cases "isNaN q")
    case True
    then show ?thesis by (simp add: bucketQuantile_def)
  next
    case False
    assume "upperBound (last (sortBuckets buckets)) \<noteq> PInf
        \<or> length bs' < 2 \<or> feq (count (last bs')) (Fin 0)"
    then show ?thesis
      using rankAndInterpolate_degenerate[of bs' q fm fp]
      by (auto simp: bucketQuantile_in_domain[OF False assms c rb])
  qed
  have "(length bs' < 2 \<longrightarrow> fst (bucketQuantile q buckets) = Inr (NaN, False, False))
      \<and> (feq (count (last bs')) (Fin 0) \<longrightarrow>
            fst (bucketQuantile q buckets) = Inr (NaN, False, False))"
    using res by blast
  with rb have "\<exists>bs' fm fp. repairedBuckets buckets = Inr (bs', fm, fp)
          \<and> (length bs' < 2 \<longrightarrow>
                fst (bucketQuantile q buckets) = Inr (NaN, False, False))
          \<and> (feq (count (last bs')) (Fin 0) \<longrightarrow>
                fst (bucketQuantile q buckets) = Inr (NaN, False, False))"
    by (rule_tac x=bs' in exI, rule_tac x=fm in exI, rule_tac x=fp in exI) simp
  with res all show ?thesis by blast
qed

theorem bucketQuantile_degenerate_witness:
  "\<not> flt (Fin (1/2)) (Fin 0) \<and> \<not> flt (Fin 1) (Fin (1/2))
   \<and> upperBound (last (sortBuckets [\<lparr>upperBound = Fin 2, count = Fin 2\<rparr>,
        \<lparr>upperBound = Fin 1, count = Fin 1\<rparr>])) \<noteq> PInf
   \<and> fst (bucketQuantile (Fin (1/2)) [\<lparr>upperBound = Fin 2, count = Fin 2\<rparr>,
        \<lparr>upperBound = Fin 1, count = Fin 1\<rparr>]) = Inr (NaN, False, False)
   \<and> repairedBuckets [\<lparr>upperBound = PInf, count = Fin 5\<rparr>]
        = Inr ([\<lparr>upperBound = PInf, count = Fin 5\<rparr>], False, False)
   \<and> length [\<lparr>upperBound = PInf, count = Fin 5\<rparr>] < 2
   \<and> fst (bucketQuantile (Fin (1/2)) [\<lparr>upperBound = PInf, count = Fin 5\<rparr>]) = Inr (NaN, False, False)
   \<and> repairedBuckets [\<lparr>upperBound = Fin 1, count = Fin 0\<rparr>, \<lparr>upperBound = PInf, count = Fin 0\<rparr>]
        = Inr ([\<lparr>upperBound = Fin 1, count = Fin 0\<rparr>, \<lparr>upperBound = PInf, count = Fin 0\<rparr>],
               False, False)
   \<and> feq (count (last [\<lparr>upperBound = Fin 1, count = Fin 0\<rparr>,
        \<lparr>upperBound = PInf, count = Fin 0\<rparr>])) (Fin 0)
   \<and> fst (bucketQuantile (Fin (1/2)) [\<lparr>upperBound = Fin 1, count = Fin 0\<rparr>,
        \<lparr>upperBound = PInf, count = Fin 0\<rparr>]) = Inr (NaN, False, False)"
  using bucketQuantile_degenerate [of "Fin (1/2)" "[\<lparr>upperBound = Fin 2, count = Fin 2\<rparr>,
        \<lparr>upperBound = Fin 1, count = Fin 1\<rparr>]"]
    bucketQuantile_degenerate [of "Fin (1/2)" "[\<lparr>upperBound = PInf, count = Fin 5\<rparr>]"]
    bucketQuantile_degenerate [of "Fin (1/2)" "[\<lparr>upperBound = Fin 1, count = Fin 0\<rparr>,
        \<lparr>upperBound = PInf, count = Fin 0\<rparr>]"]
  by (simp add: repaired_single repaired_empty_histogram sort_unbounded feq_def)

text \<open>
  For a quantile outside [0, 1] the result is not NaN: for q = 2 and a histogram without a
  +Inf bucket the check of the quantile comes first and the result is +Inf.
\<close>

theorem bucketQuantile_degenerate_counterexample:
  "upperBound (last (sortBuckets [\<lparr>upperBound = Fin 2, count = Fin 2\<rparr>,
        \<lparr>upperBound = Fin 1, count = Fin 1\<rparr>])) \<noteq> PInf
   \<and> fst (bucketQuantile (Fin 2) [\<lparr>upperBound = Fin 2, count = Fin 2\<rparr>,
        \<lparr>upperBound = Fin 1, count = Fin 1\<rparr>]) = Inr (PInf, False, False)
   \<and> fst (bucketQuantile (Fin 2) [\<lparr>upperBound = Fin 2, count = Fin 2\<rparr>,
        \<lparr>upperBound = Fin 1, count = Fin 1\<rparr>]) \<noteq> Inr (NaN, False, False)"
  by (simp add: bucketQuantile_def sort_unbounded)

subsection \<open>Monotonicity repair\<close>

text \<open>
  C6, as amended. \<open>ensureMonotonicAndIgnoreSmallDeltas\<close> keeps the length, the first
  bucket and every upper bound. It scans the buckets in ascending order. A count that
  differs from the repaired count of its predecessor by less than the relative tolerance
  is set to that count and the precision-fixed flag is set; a count that is lower by more
  than the tolerance is set to that count and the forced-monotonic flag is set; every other
  count is kept. When no count is NaN, the counts after the repair are non-decreasing. For
  the buckets 1:5, 2:3, +Inf:10 and the tolerance 1e-12 the counts become 5, 5, 10 and the
  forced-monotonic flag is set.
\<close>

theorem ensureMonotonic_repair:
  assumes "ensureMonotonicAndIgnoreSmallDeltas buckets tol
      = Inr (bs', forcedMonotonic, fixedPrecision)"
  shows "buckets \<noteq> []
    \<and> length bs' = length buckets
    \<and> bs' ! 0 = buckets ! 0
    \<and> (\<forall>j<length buckets. upperBound (bs' ! j) = upperBound (buckets ! j))
    \<and> (\<forall>j. 0 < j \<and> j < length buckets \<longrightarrow>
          (\<not> feq (count (buckets ! j)) (count (bs' ! (j - 1)))
             \<and> almostEqual (count (bs' ! (j - 1))) (count (buckets ! j)) tol
           \<longrightarrow> count (bs' ! j) = count (bs' ! (j - 1)) \<and> fixedPrecision)
        \<and> (\<not> feq (count (buckets ! j)) (count (bs' ! (j - 1)))
             \<and> \<not> almostEqual (count (bs' ! (j - 1))) (count (buckets ! j)) tol
             \<and> flt (count (buckets ! j)) (count (bs' ! (j - 1)))
           \<longrightarrow> count (bs' ! j) = count (bs' ! (j - 1)) \<and> forcedMonotonic)
        \<and> (feq (count (buckets ! j)) (count (bs' ! (j - 1)))
             \<or> (\<not> almostEqual (count (bs' ! (j - 1))) (count (buckets ! j)) tol
                 \<and> \<not> flt (count (buckets ! j)) (count (bs' ! (j - 1))))
           \<longrightarrow> count (bs' ! j) = count (buckets ! j)))
    \<and> ((\<forall>b\<in>set buckets. \<not> isNaN (count b)) \<longrightarrow>
          (\<forall>j. j + 1 < length buckets \<longrightarrow> fle (count (bs' ! j)) (count (bs' ! (j + 1)))))
    \<and> ensureMonotonicAndIgnoreSmallDeltas
         [\<lparr>upperBound = Fin 1, count = Fin 5\<rparr>, \<lparr>upperBound = Fin 2, count = Fin 3\<rparr>,
          \<lparr>upperBound = PInf, count = Fin 10\<rparr>] smallDeltaTolerance
       = Inr ([\<lparr>upperBound = Fin 1, count = Fin 5\<rparr>, \<lparr>upperBound = Fin 2, count = Fin 5\<rparr>,
           \<lparr>upperBound = PInf, count = Fin 10\<rparr>], True, False)"
proof -
  note u = ensure_unfold[OF assms]
  have ne: "buckets \<noteq> []" using assms ensure_Inr_iff by blast
  have a: "length bs' = length buckets" using u by simp
  have b: "bs' ! 0 = buckets ! 0" using u by simp
  have c: "\<forall>j<length buckets. upperBound (bs' ! j) = upperBound (buckets ! j)" using u by simp
  have d: "\<forall>j. 0 < j \<and> j < length buckets \<longrightarrow>
          (\<not> feq (count (buckets ! j)) (count (bs' ! (j - 1)))
             \<and> almostEqual (count (bs' ! (j - 1))) (count (buckets ! j)) tol
           \<longrightarrow> count (bs' ! j) = count (bs' ! (j - 1)) \<and> fixedPrecision)
        \<and> (\<not> feq (count (buckets ! j)) (count (bs' ! (j - 1)))
             \<and> \<not> almostEqual (count (bs' ! (j - 1))) (count (buckets ! j)) tol
             \<and> flt (count (buckets ! j)) (count (bs' ! (j - 1)))
           \<longrightarrow> count (bs' ! j) = count (bs' ! (j - 1)) \<and> forcedMonotonic)
        \<and> (feq (count (buckets ! j)) (count (bs' ! (j - 1)))
             \<or> (\<not> almostEqual (count (bs' ! (j - 1))) (count (buckets ! j)) tol
                 \<and> \<not> flt (count (buckets ! j)) (count (bs' ! (j - 1))))
           \<longrightarrow> count (bs' ! j) = count (buckets ! j))"
  proof (intro allI impI)
    fix j assume j: "0 < j \<and> j < length buckets"
    then have "repairedAs tol (count (bs' ! (j - 1))) (count (buckets ! j)) (count (bs' ! j))
        forcedMonotonic fixedPrecision"
      using u by (simp add: Suc_leI)
    then show "(\<not> feq (count (buckets ! j)) (count (bs' ! (j - 1)))
             \<and> almostEqual (count (bs' ! (j - 1))) (count (buckets ! j)) tol
           \<longrightarrow> count (bs' ! j) = count (bs' ! (j - 1)) \<and> fixedPrecision)
        \<and> (\<not> feq (count (buckets ! j)) (count (bs' ! (j - 1)))
             \<and> \<not> almostEqual (count (bs' ! (j - 1))) (count (buckets ! j)) tol
             \<and> flt (count (buckets ! j)) (count (bs' ! (j - 1)))
           \<longrightarrow> count (bs' ! j) = count (bs' ! (j - 1)) \<and> forcedMonotonic)
        \<and> (feq (count (buckets ! j)) (count (bs' ! (j - 1)))
             \<or> (\<not> almostEqual (count (bs' ! (j - 1))) (count (buckets ! j)) tol
                 \<and> \<not> flt (count (buckets ! j)) (count (bs' ! (j - 1))))
           \<longrightarrow> count (bs' ! j) = count (buckets ! j))"
      unfolding repairedAs_def by blast
  qed
  have e: "(\<forall>b\<in>set buckets. \<not> isNaN (count b)) \<longrightarrow>
          (\<forall>j. j + 1 < length buckets \<longrightarrow> fle (count (bs' ! j)) (count (bs' ! (j + 1))))"
    using ensure_monotone[OF assms] by blast
  from ne a b c d e repair_example show ?thesis by blast
qed

theorem ensureMonotonic_repair_witness:
  "ensureMonotonicAndIgnoreSmallDeltas
         [\<lparr>upperBound = Fin 1, count = Fin 5\<rparr>, \<lparr>upperBound = Fin 2, count = Fin 3\<rparr>,
          \<lparr>upperBound = PInf, count = Fin 10\<rparr>] smallDeltaTolerance
       = Inr ([\<lparr>upperBound = Fin 1, count = Fin 5\<rparr>, \<lparr>upperBound = Fin 2, count = Fin 5\<rparr>,
           \<lparr>upperBound = PInf, count = Fin 10\<rparr>], True, False)
   \<and> \<not> feq (Fin 3) (Fin 5) \<and> \<not> almostEqual (Fin 5) (Fin 3) smallDeltaTolerance \<and> flt (Fin 3) (Fin 5)
   \<and> \<not> isNaN (Fin 5) \<and> \<not> isNaN (Fin 3) \<and> \<not> isNaN (Fin 10)
   \<and> fle (Fin 5) (Fin 5) \<and> fle (Fin 5) (Fin 10)"
proof -
  have nn: "\<forall>b\<in>set [\<lparr>upperBound = Fin 1, count = Fin 5\<rparr>, \<lparr>upperBound = Fin 2, count = Fin 3\<rparr>,
          \<lparr>upperBound = PInf, count = Fin 10\<rparr>]. \<not> isNaN (count b)" by simp
  note t = ensureMonotonic_repair [OF repair_example]
  have m: "\<forall>j. j + 1 < length [\<lparr>upperBound = Fin 1, count = Fin 5\<rparr>, \<lparr>upperBound = Fin 2, count = Fin 3\<rparr>,
          \<lparr>upperBound = PInf, count = Fin 10\<rparr>] \<longrightarrow>
        fle (count ([\<lparr>upperBound = Fin 1, count = Fin 5\<rparr>, \<lparr>upperBound = Fin 2, count = Fin 5\<rparr>,
           \<lparr>upperBound = PInf, count = Fin 10\<rparr>] ! j))
            (count ([\<lparr>upperBound = Fin 1, count = Fin 5\<rparr>, \<lparr>upperBound = Fin 2, count = Fin 5\<rparr>,
           \<lparr>upperBound = PInf, count = Fin 10\<rparr>] ! (j + 1)))"
    using t nn by blast
  have "fle (Fin 5) (Fin 5)" using m[rule_format, of 0] by simp
  moreover have "fle (Fin 5) (Fin 10)" using m[rule_format, of 1] by simp
  ultimately show ?thesis using repair_example ae53 by (simp add: feq_def)
qed

text \<open>
  Without the condition on NaN the counts need not be non-decreasing: the counts 5, NaN, 3
  are left as they are, since every comparison with NaN is false.
\<close>

theorem ensureMonotonic_repair_counterexample:
  "ensureMonotonicAndIgnoreSmallDeltas
        [\<lparr>upperBound = Fin 1, count = Fin 5\<rparr>, \<lparr>upperBound = Fin 2, count = NaN\<rparr>,
         \<lparr>upperBound = PInf, count = Fin 3\<rparr>] smallDeltaTolerance
     = Inr ([\<lparr>upperBound = Fin 1, count = Fin 5\<rparr>, \<lparr>upperBound = Fin 2, count = NaN\<rparr>,
             \<lparr>upperBound = PInf, count = Fin 3\<rparr>], False, False)
   \<and> \<not> fle (Fin 5) NaN \<and> \<not> fle NaN (Fin 3) \<and> \<not> fle (Fin 5) (Fin 3)"
  by (simp add: repair_NaN_example fle_def feq_def)

subsection \<open>What bucketQuantile writes\<close>








lemma sortBuckets_NaN_example:
  "sortBuckets [\<lparr>upperBound = Fin 2, count = Fin 1\<rparr>, \<lparr>upperBound = NaN, count = Fin 2\<rparr>,
       \<lparr>upperBound = Fin 1, count = Fin 3\<rparr>]
     = [\<lparr>upperBound = Fin 2, count = Fin 1\<rparr>, \<lparr>upperBound = NaN, count = Fin 2\<rparr>,
       \<lparr>upperBound = Fin 1, count = Fin 3\<rparr>]"
  by (simp add: sortBuckets_def Less_def)


text \<open>
  With a NaN upper bound the sort, and with it \<open>bucketQuantile\<close>, may leave the slice
  unsorted: the buckets 2, NaN, 1 stay in that order.
\<close>

lemma bucketQuantile_NaN_bound_example:
  "snd (bucketQuantile (Fin (1/2)) [\<lparr>upperBound = Fin 2, count = Fin 1\<rparr>,
       \<lparr>upperBound = NaN, count = Fin 2\<rparr>, \<lparr>upperBound = Fin 1, count = Fin 3\<rparr>])
     = [\<lparr>upperBound = Fin 2, count = Fin 1\<rparr>, \<lparr>upperBound = NaN, count = Fin 2\<rparr>,
       \<lparr>upperBound = Fin 1, count = Fin 3\<rparr>]"
  by (simp add: bucketQuantile_def sortBuckets_NaN_example Let_def isInf_iff)




section \<open>Properties of the range query execution\<close>

lemma addSamples_length:
  "addSamples t xs sm = Inr sm' \<Longrightarrow> length sm' = length sm"
  by (induction xs arbitrary: sm) (auto simp: Let_def split: if_splits)

lemma addSamples_panic_iff:
  "(addSamples t xs sm = Inl IndexOutOfRange) \<longleftrightarrow> (\<exists>x\<in>set xs. length sm \<le> ID x)"
  by (induction xs arbitrary: sm) (auto simp: Let_def)

lemma addVectors_length:
  "addVectors p r s sm = Inr (s', sm') \<Longrightarrow> length sm' = length sm"
  by (induction r arbitrary: s sm) (auto split: sum.splits dest: addSamples_length)

lemma addVectors_panic_iff:
  "(addVectors p r s sm = Inl IndexOutOfRange)
     \<longleftrightarrow> (\<exists>v\<in>set r. \<exists>x\<in>set (Samples v). length sm \<le> ID x)"
proof (induction r arbitrary: s sm)
  case Nil
  then show ?case by simp
next
  case (Cons v r)
  show ?case
  proof (cases "addSamples (T v) (Samples v) sm")
    case (Inl e)
    then have "addSamples (T v) (Samples v) sm = Inl IndexOutOfRange" by (cases e) simp
    then show ?thesis using addSamples_panic_iff[of "T v" "Samples v" sm] by auto
  next
    case (Inr sm')
    then have len: "length sm' = length sm" by (rule addSamples_length)
    have "\<not> (\<exists>x\<in>set (Samples v). length sm \<le> ID x)"
      using Inr addSamples_panic_iff[of "T v" "Samples v" sm] by simp
    then show ?thesis using Inr Cons.IH[of "PutSamples p (Samples v) s" sm'] len by auto
  qed
qed

lemma reach_length:
  "reach p k s sm = Some (sk, smk) \<Longrightarrow> length smk = length sm"
proof (induction k arbitrary: s sm)
  case 0
  then show ?case by simp
next
  case (Suc k)
  then show ?case
    by (auto split: prod.splits option.splits sum.splits dest!: addVectors_length)
qed

lemma execLoop_reach:
  "reach p k s sm = Some (sk, smk) \<Longrightarrow> execLoop p s sm = execLoop p sk smk"
proof (induction k arbitrary: s sm)
  case 0
  then show ?case by simp
next
  case (Suc k)
  then show ?case
    by (subst execLoop.simps) (auto split: prod.splits option.splits sum.splits)
qed

lemma execLoop_err:
  "Next p s = ((r, Some err), s') \<Longrightarrow> execLoop p s sm = Some (Inr (Return (newErrResult err)))"
  by (subst execLoop.simps) (simp split: option.splits)

lemma execLoop_nil:
  "Next p s = ((None, None), s') \<Longrightarrow> execLoop p s sm = Some (Inr (Break sm))"
  by (subst execLoop.simps) simp

lemma execLoop_panic:
  "Next p s = ((Some r, None), s') \<Longrightarrow> addVectors p r s' sm = Inl e \<Longrightarrow> execLoop p s sm = Some (Inl e)"
  by (subst execLoop.simps) simp

lemma execLoop_reach_conv:
  "execLoop p s sm = Some out \<Longrightarrow>
     \<exists>k sk smk. reach p k s sm = Some (sk, smk) \<and>
       ((\<exists>r err s'. Next p sk = ((r, Some err), s') \<and> out = Inr (Return (newErrResult err)))
        \<or> (\<exists>s'. Next p sk = ((None, None), s') \<and> out = Inr (Break smk))
        \<or> (\<exists>r s'. Next p sk = ((Some r, None), s')
              \<and> addVectors p r s' smk = Inl IndexOutOfRange \<and> out = Inl IndexOutOfRange))"
proof (induction rule: execLoop.raw_induct[rotated 1, consumes 1])
  case (1 execLoop' p s sm out)
  have r0: "reach p 0 s sm = Some (s, sm)" by simp
  obtain r eo s' where nx: "Next p s = ((r, eo), s')"
    by (metis surj_pair)
  show ?case
  proof (cases eo)
    case (Some err)
    then have "out = Inr (Return (newErrResult err))"
      using 1(2) nx by (simp split: option.splits)
    with r0 nx Some show ?thesis by blast
  next
    case None
    show ?thesis
    proof (cases r)
      case rn: None
      then have "out = Inr (Break sm)" using 1(2) nx None by simp
      with r0 nx None rn show ?thesis by blast
    next
      case (Some vs)
      show ?thesis
      proof (cases "addVectors p vs s' sm")
        case (Inl e)
        then have "out = Inl IndexOutOfRange" "addVectors p vs s' sm = Inl IndexOutOfRange"
          using 1(2) nx None Some by (cases e, simp)+
        with r0 nx None Some show ?thesis by blast
      next
        case (Inr b)
        obtain s'' sm' where b: "b = (s'', sm')" by (cases b)
        have "execLoop' p (PutVectors p vs s'') sm' = Some out"
          using 1(2) nx None Some Inr b by simp
        from 1(1)[OF this] obtain k sk smk where
          k: "reach p k (PutVectors p vs s'') sm' = Some (sk, smk)"
          and c: "(\<exists>r err s'. Next p sk = ((r, Some err), s') \<and> out = Inr (Return (newErrResult err)))
        \<or> (\<exists>s'. Next p sk = ((None, None), s') \<and> out = Inr (Break smk))
        \<or> (\<exists>r s'. Next p sk = ((Some r, None), s')
              \<and> addVectors p r s' smk = Inl IndexOutOfRange \<and> out = Inl IndexOutOfRange)"
          by blast
        have "reach p (Suc k) s sm = Some (sk, smk)"
          using k nx None Some Inr b by simp
        with c show ?thesis by blast
      qed
    qed
  qed
qed

lemma Exec_cases:
  "execLoop (plan q) s (replicate 3000 None) = None \<Longrightarrow> Exec q sortMatrix s = None"
  "execLoop (plan q) s (replicate 3000 None) = Some (Inl e) \<Longrightarrow> Exec q sortMatrix s = Some (Inl e)"
  "execLoop (plan q) s (replicate 3000 None) = Some (Inr (Return res))
     \<Longrightarrow> Exec q sortMatrix s = Some (Inr res)"
  "execLoop (plan q) s (replicate 3000 None) = Some (Inr (Break sm))
     \<Longrightarrow> Exec q sortMatrix s = Some (Inr \<lparr>Value = Some (sortMatrix (collectSeries sm)), Err = None\<rparr>)"
  by (simp_all add: Exec_def)

lemma execLoop_cases:
  obtains (none) "execLoop p s sm = None"
    | (panic) "execLoop p s sm = Some (Inl IndexOutOfRange)"
    | (ret) res where "execLoop p s sm = Some (Inr (Return res))"
    | (brk) sm' where "execLoop p s sm = Some (Inr (Break sm'))"
proof (cases "execLoop p s sm")
  case None
  then show ?thesis by (rule none)
next
  case (Some out)
  show ?thesis
  proof (cases out)
    case (Inl e)
    then show ?thesis using Some panic by (cases e) simp
  next
    case (Inr x)
    then show ?thesis using Some ret brk by (cases x) simp_all
  qed
qed

lemma execLoop_Return_conv:
  assumes "execLoop p s sm = Some (Inr (Return res))"
  shows "\<exists>k sk smk r err s'. reach p k s sm = Some (sk, smk)
      \<and> Next p sk = ((r, Some err), s') \<and> res = newErrResult err"
proof -
  from execLoop_reach_conv[OF assms] obtain k sk smk where
    x: "reach p k s sm = Some (sk, smk) \<and>
       ((\<exists>r err s'. Next p sk = ((r, Some err), s')
            \<and> Inr (Return res) = (Inr (Return (newErrResult err)) :: panic + loopExit))
        \<or> (\<exists>s'. Next p sk = ((None, None), s')
            \<and> Inr (Return res) = (Inr (Break smk) :: panic + loopExit))
        \<or> (\<exists>r s'. Next p sk = ((Some r, None), s')
            \<and> addVectors p r s' smk = Inl IndexOutOfRange
            \<and> Inr (Return res) = (Inl IndexOutOfRange :: panic + loopExit)))"
    by (elim exE) (rule that)
  then have "\<exists>r err s'. Next p sk = ((r, Some err), s') \<and> res = newErrResult err"
    by simp
  then obtain r err s' where "Next p sk = ((r, Some err), s') \<and> res = newErrResult err"
    by (elim exE) (rule that)
  with x show ?thesis
    by (rule_tac x=k in exI, rule_tac x=sk in exI, rule_tac x=smk in exI, rule_tac x=r in exI,
        rule_tac x=err in exI, rule_tac x=s' in exI) simp
qed

lemma execLoop_Break_conv:
  assumes "execLoop p s sm = Some (Inr (Break sm'))"
  shows "\<exists>k sk s'. reach p k s sm = Some (sk, sm') \<and> Next p sk = ((None, None), s')"
proof -
  from execLoop_reach_conv[OF assms] obtain k sk smk where
    x: "reach p k s sm = Some (sk, smk) \<and>
       ((\<exists>r err s'. Next p sk = ((r, Some err), s')
            \<and> Inr (Break sm') = (Inr (Return (newErrResult err)) :: panic + loopExit))
        \<or> (\<exists>s'. Next p sk = ((None, None), s')
            \<and> Inr (Break sm') = (Inr (Break smk) :: panic + loopExit))
        \<or> (\<exists>r s'. Next p sk = ((Some r, None), s')
            \<and> addVectors p r s' smk = Inl IndexOutOfRange
            \<and> Inr (Break sm') = (Inl IndexOutOfRange :: panic + loopExit)))"
    by (elim exE) (rule that)
  then have "\<exists>s'. Next p sk = ((None, None), s') \<and> sm' = smk"
    by simp
  then obtain s' where "Next p sk = ((None, None), s') \<and> sm' = smk"
    by (elim exE) (rule that)
  with x show ?thesis
    by (rule_tac x=k in exI, rule_tac x=sk in exI, rule_tac x=s' in exI) simp
qed

lemma execLoop_panic_conv:
  assumes "execLoop p s sm = Some (Inl IndexOutOfRange)"
  shows "\<exists>k sk smk r s'. reach p k s sm = Some (sk, smk)
      \<and> Next p sk = ((Some r, None), s') \<and> addVectors p r s' smk = Inl IndexOutOfRange"
proof -
  from execLoop_reach_conv[OF assms] obtain k sk smk where
    x: "reach p k s sm = Some (sk, smk) \<and>
       ((\<exists>r err s'. Next p sk = ((r, Some err), s')
            \<and> Inl IndexOutOfRange = (Inr (Return (newErrResult err)) :: panic + loopExit))
        \<or> (\<exists>s'. Next p sk = ((None, None), s')
            \<and> Inl IndexOutOfRange = (Inr (Break smk) :: panic + loopExit))
        \<or> (\<exists>r s'. Next p sk = ((Some r, None), s')
            \<and> addVectors p r s' smk = Inl IndexOutOfRange
            \<and> Inl IndexOutOfRange = (Inl IndexOutOfRange :: panic + loopExit)))"
    by (elim exE) (rule that)
  then have "\<exists>r s'. Next p sk = ((Some r, None), s')
      \<and> addVectors p r s' smk = Inl IndexOutOfRange"
    by simp
  then obtain r s' where "Next p sk = ((Some r, None), s')
      \<and> addVectors p r s' smk = Inl IndexOutOfRange"
    by (elim exE) (rule that)
  with x show ?thesis
    by (rule_tac x=k in exI, rule_tac x=sk in exI, rule_tac x=smk in exI, rule_tac x=r in exI,
        rule_tac x=s' in exI) simp
qed

text \<open>
  The accumulator of \<open>Exec\<close> holds, at every index, the series of that id in the step
  vectors produced so far, and the loop that copies it drops the nil entries: what
  \<open>Exec\<close> sorts is the accumulated matrix.
\<close>

lemma addSamples_nth:
  "addSamples t xs sm = Inr sm' \<Longrightarrow> i < length sm
     \<Longrightarrow> sm' ! i = foldl addPoint (sm ! i)
           (map (\<lambda>x. (Metric x, (t, V x))) (filter (\<lambda>x. ID x = i) xs))"
proof (induction xs arbitrary: sm)
  case Nil
  then show ?case by simp
next
  case (Cons x xs)
  have inb: "ID x < length sm" using Cons.prems(1) by (simp split: if_splits)
  define sm1 where "sm1 = sm[ID x := addPoint (sm ! ID x) (Metric x, (t, V x))]"
  have run: "addSamples t xs sm1 = Inr sm'"
    using Cons.prems(1) inb
    by (simp add: sm1_def addPoint_def Let_def split: option.splits)
  have len: "i < length sm1" using Cons.prems(2) by (simp add: sm1_def)
  have IH: "sm' ! i = foldl addPoint (sm1 ! i)
           (map (\<lambda>x. (Metric x, (t, V x))) (filter (\<lambda>x. ID x = i) xs))"
    by (rule Cons.IH[OF run len])
  show ?case
  proof (cases "ID x = i")
    case True
    then have "sm1 ! i = addPoint (sm ! i) (Metric x, (t, V x))"
      using inb by (simp add: sm1_def)
    then show ?thesis using IH True by simp
  next
    case False
    then have "sm1 ! i = sm ! i" by (simp add: sm1_def)
    then show ?thesis using IH False by simp
  qed
qed

lemma entries_Cons:
  "entries i (v # vs)
     = map (\<lambda>x. (Metric x, (T v, V x))) (filter (\<lambda>x. ID x = i) (Samples v)) @ entries i vs"
  by (simp add: entries_def)

lemma entries_append: "entries i (vs @ ws) = entries i vs @ entries i ws"
  by (simp add: entries_def)

lemma addVectors_nth:
  "addVectors p r s sm = Inr (s', sm') \<Longrightarrow> i < length sm
     \<Longrightarrow> sm' ! i = foldl addPoint (sm ! i) (entries i r)"
proof (induction r arbitrary: s sm)
  case Nil
  then show ?case by (simp add: entries_def)
next
  case (Cons v r)
  from Cons.prems(1) obtain sm1 where
    a: "addSamples (T v) (Samples v) sm = Inr sm1"
    and b: "addVectors p r (PutSamples p (Samples v) s) sm1 = Inr (s', sm')"
    by (auto split: sum.splits)
  have len: "length sm1 = length sm" using a by (rule addSamples_length)
  have "sm' ! i = foldl addPoint (sm1 ! i) (entries i r)"
    using Cons.IH[OF b] Cons.prems(2) len by simp
  then show ?case
    using addSamples_nth[OF a Cons.prems(2)] by (simp add: entries_Cons)
qed

lemma addVectors_state:
  "addVectors p r s sm = Inr (s', sm')
     \<Longrightarrow> s' = foldl (\<lambda>s vector. PutSamples p (Samples vector) s) s r"
proof (induction r arbitrary: s sm)
  case Nil
  then show ?case by simp
next
  case (Cons v r)
  from Cons.prems obtain sm1 where
    b: "addVectors p r (PutSamples p (Samples v) s) sm1 = Inr (s', sm')"
    by (auto split: sum.splits)
  show ?case using Cons.IH[OF b] by simp
qed

lemma reach_nth:
  "reach p k s sm = Some (sk, smk) \<Longrightarrow> i < length sm
     \<Longrightarrow> smk ! i = foldl addPoint (sm ! i) (entries i (produced p k s))"
proof (induction k arbitrary: s sm)
  case 0
  then show ?case by (simp add: entries_def)
next
  case (Suc k)
  from Suc.prems(1) obtain r s' s'' sm1 where
    n: "Next p s = ((Some r, None), s')"
    and a: "addVectors p r s' sm = Inr (s'', sm1)"
    and b: "reach p k (PutVectors p r s'') sm1 = Some (sk, smk)"
    by (auto split: prod.splits option.splits sum.splits)
  have len: "length sm1 = length sm" using a by (rule addVectors_length)
  have st: "s'' = foldl (\<lambda>s vector. PutSamples p (Samples vector) s) s' r"
    using a by (rule addVectors_state)
  have "smk ! i = foldl addPoint (sm1 ! i) (entries i (produced p k (PutVectors p r s'')))"
    using Suc.IH[OF b] Suc.prems(2) len by simp
  then show ?case
    using addVectors_nth[OF a Suc.prems(2)] n st by (simp add: entries_append)
qed

lemma foldl_addPoint_Some:
  "foldl addPoint (Some series) es = Some (series\<lparr>Points := Points series @ map snd es\<rparr>)"
  by (induction es arbitrary: series) (simp_all add: addPoint_def)

lemma foldl_addPoint_None:
  "foldl addPoint None es
     = (case es of [] \<Rightarrow> None | e # es' \<Rightarrow> Some \<lparr>Metric' = fst e, Points = map snd (e # es')\<rparr>)"
  by (cases es) (simp_all add: addPoint_def foldl_addPoint_Some)

lemma collectSeries_map_filter: "collectSeries sm = List.map_filter id sm"
  by (induction sm rule: collectSeries.induct) simp_all

lemma map_filter_map: "List.map_filter f (map g xs) = List.map_filter (\<lambda>x. f (g x)) xs"
  by (induction xs) (simp_all split: option.splits)

lemma map_filter_cong_set:
  "(\<forall>x\<in>set xs. f x = g x) \<Longrightarrow> List.map_filter f xs = List.map_filter g xs"
  by (induction xs) (simp_all split: option.splits)

lemma collectSeries_nth:
  "collectSeries sm = List.map_filter (\<lambda>i. sm ! i) [0..<length sm]"
proof -
  have "collectSeries sm = List.map_filter id (map (\<lambda>i. sm ! i) [0..<length sm])"
    by (simp add: collectSeries_map_filter map_nth)
  then show ?thesis by (simp add: map_filter_map)
qed

lemma reach_accumulated:
  assumes "reach p k s (replicate 3000 None) = Some (sk, smk)"
  shows "collectSeries smk = accumulatedMatrix (produced p k s)"
proof -
  have len: "length smk = 3000" using reach_length[OF assms] by simp
  have "\<forall>i\<in>set [0..<3000]. smk ! i = seriesOf i (produced p k s)"
  proof
    fix i assume "i \<in> set [0..<3000]"
    then have i: "i < length (replicate 3000 (None :: Series option))" by simp
    then have "replicate 3000 (None :: Series option) ! i = None" by simp
    then show "smk ! i = seriesOf i (produced p k s)"
      using reach_nth[OF assms i] by (simp add: foldl_addPoint_None seriesOf_def)
  qed
  then have "List.map_filter (\<lambda>i. smk ! i) [0..<3000]
      = List.map_filter (\<lambda>i. seriesOf i (produced p k s)) [0..<3000]"
    by (rule map_filter_cong_set)
  then show ?thesis using collectSeries_nth[of smk] len by (simp add: accumulatedMatrix_def)
qed

lemma accumulatedMatrix_below:
  assumes "n \<le> 3000" "\<forall>i. n \<le> i \<longrightarrow> seriesOf i vs = None"
  shows "accumulatedMatrix vs = List.map_filter (\<lambda>i. seriesOf i vs) [0..<n]"
proof -
  have "[0..<3000] = [0..<n] @ [n..<n + (3000 - n)]"
    using assms(1) upt_add_eq_append[of 0 n "3000 - n"] by simp
  moreover have "List.map_filter (\<lambda>i. seriesOf i vs) [n..<n + (3000 - n)] = []"
    using assms(2) by (simp add: List.map_filter_def)
  ultimately show ?thesis
    by (simp add: accumulatedMatrix_def List.map_filter_def)
qed

text \<open>
  C8. Whenever a call of \<open>Next\<close> made by \<open>Exec\<close> returns an error, whatever has been
  accumulated before, \<open>Exec\<close> returns the result whose \<open>Err\<close> is that error and whose
  \<open>Value\<close> is nil. Whenever a call returns nil without an error, \<open>Exec\<close> returns the
  result without error whose value is the sorted accumulated matrix of the step vectors
  produced by the calls before: for every series id with a sample, by ascending id, the
  series with the labels of the first sample of that id and the points of all its
  samples in the order of arrival. Every result \<open>Exec\<close> returns arises in one of these
  two ways.
\<close>

theorem Exec_error_or_matrix:
  "(\<forall>k sk smk r err s'.
       reach (plan q) k s (replicate 3000 None) = Some (sk, smk)
       \<and> Next (plan q) sk = ((r, Some err), s')
       \<longrightarrow> Exec q sortMatrix s = Some (Inr \<lparr>Value = None, Err = Some err\<rparr>))
   \<and> (\<forall>k sk smk s'.
       reach (plan q) k s (replicate 3000 None) = Some (sk, smk)
       \<and> Next (plan q) sk = ((None, None), s')
       \<longrightarrow> Exec q sortMatrix s
            = Some (Inr \<lparr>Value = Some (sortMatrix (accumulatedMatrix (produced (plan q) k s))),
                         Err = None\<rparr>))
   \<and> (\<forall>res. Exec q sortMatrix s = Some (Inr res) \<longrightarrow>
         (\<exists>k sk smk. reach (plan q) k s (replicate 3000 None) = Some (sk, smk)
            \<and> ((\<exists>r err s'. Next (plan q) sk = ((r, Some err), s')
                    \<and> res = \<lparr>Value = None, Err = Some err\<rparr>)
                \<or> (\<exists>s'. Next (plan q) sk = ((None, None), s')
                    \<and> res = \<lparr>Value = Some (sortMatrix (accumulatedMatrix (produced (plan q) k s))),
                              Err = None\<rparr>))))"
proof (intro conjI allI impI)
  fix k sk smk r err s'
  assume a: "reach (plan q) k s (replicate 3000 None) = Some (sk, smk)
       \<and> Next (plan q) sk = ((r, Some err), s')"
  have "execLoop (plan q) s (replicate 3000 None) = execLoop (plan q) sk smk"
    using a by (intro execLoop_reach) (rule conjunct1)
  also have "\<dots> = Some (Inr (Return (newErrResult err)))"
    using a by (intro execLoop_err) (rule conjunct2)
  finally have "Exec q sortMatrix s = Some (Inr (newErrResult err))"
    by (rule Exec_cases(3))
  then show "Exec q sortMatrix s = Some (Inr \<lparr>Value = None, Err = Some err\<rparr>)"
    unfolding newErrResult_def .
next
  fix k sk smk s'
  assume a: "reach (plan q) k s (replicate 3000 None) = Some (sk, smk)
       \<and> Next (plan q) sk = ((None, None), s')"
  have acc: "collectSeries smk = accumulatedMatrix (produced (plan q) k s)"
    using a by (intro reach_accumulated) (rule conjunct1)
  have "execLoop (plan q) s (replicate 3000 None) = execLoop (plan q) sk smk"
    using a by (intro execLoop_reach) (rule conjunct1)
  also have "\<dots> = Some (Inr (Break smk))"
    using a by (intro execLoop_nil) (rule conjunct2)
  finally have "Exec q sortMatrix s
            = Some (Inr \<lparr>Value = Some (sortMatrix (collectSeries smk)), Err = None\<rparr>)"
    by (rule Exec_cases(4))
  then show "Exec q sortMatrix s
            = Some (Inr \<lparr>Value = Some (sortMatrix (accumulatedMatrix (produced (plan q) k s))),
                         Err = None\<rparr>)"
    unfolding acc .
next
  fix res
  assume a: "Exec q sortMatrix s = Some (Inr res)"
  show "\<exists>k sk smk. reach (plan q) k s (replicate 3000 None) = Some (sk, smk)
            \<and> ((\<exists>r err s'. Next (plan q) sk = ((r, Some err), s')
                    \<and> res = \<lparr>Value = None, Err = Some err\<rparr>)
                \<or> (\<exists>s'. Next (plan q) sk = ((None, None), s')
                    \<and> res = \<lparr>Value = Some (sortMatrix (accumulatedMatrix (produced (plan q) k s))),
                              Err = None\<rparr>))"
  proof (cases "plan q" s "replicate 3000 (None :: Series option)" rule: execLoop_cases)
    case none
    then show ?thesis using a Exec_cases(1)[OF none, of sortMatrix] by simp
  next
    case panic
    then show ?thesis using a Exec_cases(2)[OF panic, of sortMatrix] by simp
  next
    case (ret res')
    have eq: "res' = res" using a Exec_cases(3)[OF ret, of sortMatrix] by simp
    from execLoop_Return_conv[OF ret] obtain k sk smk r err s' where
      x: "reach (plan q) k s (replicate 3000 None) = Some (sk, smk)
        \<and> Next (plan q) sk = ((r, Some err), s') \<and> res' = newErrResult err"
      by (elim exE) (rule that)
    then have "\<exists>r err s'. Next (plan q) sk = ((r, Some err), s')
        \<and> res = \<lparr>Value = None, Err = Some err\<rparr>"
      using eq by (auto simp: newErrResult_def)
    with x show ?thesis
      by (rule_tac x=k in exI, rule_tac x=sk in exI, rule_tac x=smk in exI) simp
  next
    case (brk sm')
    have eq: "res = \<lparr>Value = Some (sortMatrix (collectSeries sm')), Err = None\<rparr>"
      using a Exec_cases(4)[OF brk, of sortMatrix] by simp
    from execLoop_Break_conv[OF brk] obtain k sk s' where
      x: "reach (plan q) k s (replicate 3000 None) = Some (sk, sm')
        \<and> Next (plan q) sk = ((None, None), s')"
      by (elim exE) (rule that)
    have acc: "collectSeries sm' = accumulatedMatrix (produced (plan q) k s)"
      using x by (intro reach_accumulated) (rule conjunct1)
    have "\<exists>s'. Next (plan q) sk = ((None, None), s')
        \<and> res = \<lparr>Value = Some (sortMatrix (accumulatedMatrix (produced (plan q) k s))),
                  Err = None\<rparr>"
      using x eq acc by auto
    with x show ?thesis
      by (rule_tac x=k in exI, rule_tac x=sk in exI, rule_tac x=sm' in exI) simp
  qed
qed

theorem Exec_error_or_matrix_witness:
  "Exec \<lparr>plan = \<lparr>Next = (\<lambda>n::nat.
        if n = 0 then ((Some [\<lparr>T = 10, Samples = [\<lparr>ID = 1, Metric = [(''job'', ''b'')], V = Fin 1\<rparr>,
                                                  \<lparr>ID = 0, Metric = [(''job'', ''a'')], V = Fin 2\<rparr>]\<rparr>], None), 1)
        else if n = 1 then ((Some [\<lparr>T = 20, Samples = [\<lparr>ID = 0, Metric = [(''job'', ''a'')], V = Fin 3\<rparr>]\<rparr>], None), 2)
        else ((None, Some ''boom''), n)), PutSamples = (\<lambda>xs n. n), PutVectors = (\<lambda>r n. n)\<rparr>\<rparr>
      id 0 = Some (Inr \<lparr>Value = None, Err = Some ''boom''\<rparr>)
   \<and> Exec \<lparr>plan = \<lparr>Next = (\<lambda>n::nat.
        if n = 0 then ((Some [\<lparr>T = 10, Samples = [\<lparr>ID = 1, Metric = [(''job'', ''b'')], V = Fin 1\<rparr>,
                                                  \<lparr>ID = 0, Metric = [(''job'', ''a'')], V = Fin 2\<rparr>]\<rparr>], None), 1)
        else if n = 1 then ((Some [\<lparr>T = 20, Samples = [\<lparr>ID = 0, Metric = [(''job'', ''a'')], V = Fin 3\<rparr>]\<rparr>], None), 2)
        else ((None, None), n)), PutSamples = (\<lambda>xs n. n), PutVectors = (\<lambda>r n. n)\<rparr>\<rparr>
      id 0
     = Some (Inr \<lparr>Value = Some [\<lparr>Metric' = [(''job'', ''a'')], Points = [(10, Fin 2), (20, Fin 3)]\<rparr>,
                                \<lparr>Metric' = [(''job'', ''b'')], Points = [(10, Fin 1)]\<rparr>],
                  Err = None\<rparr>)"
proof -
  let ?e = "\<lparr>plan = \<lparr>Next = (\<lambda>n::nat.
        if n = 0 then ((Some [\<lparr>T = 10, Samples = [\<lparr>ID = 1, Metric = [(''job'', ''b'')], V = Fin 1\<rparr>,
                                                  \<lparr>ID = 0, Metric = [(''job'', ''a'')], V = Fin 2\<rparr>]\<rparr>], None), 1)
        else if n = 1 then ((Some [\<lparr>T = 20, Samples = [\<lparr>ID = 0, Metric = [(''job'', ''a'')], V = Fin 3\<rparr>]\<rparr>], None), 2)
        else ((None, Some ''boom''), n)), PutSamples = (\<lambda>xs n. n), PutVectors = (\<lambda>r n. n)\<rparr>\<rparr>"
  let ?n = "\<lparr>plan = \<lparr>Next = (\<lambda>n::nat.
        if n = 0 then ((Some [\<lparr>T = 10, Samples = [\<lparr>ID = 1, Metric = [(''job'', ''b'')], V = Fin 1\<rparr>,
                                                  \<lparr>ID = 0, Metric = [(''job'', ''a'')], V = Fin 2\<rparr>]\<rparr>], None), 1)
        else if n = 1 then ((Some [\<lparr>T = 20, Samples = [\<lparr>ID = 0, Metric = [(''job'', ''a'')], V = Fin 3\<rparr>]\<rparr>], None), 2)
        else ((None, None), n)), PutSamples = (\<lambda>xs n. n), PutVectors = (\<lambda>r n. n)\<rparr>\<rparr>"
  let ?sm = "(replicate 3000 None)
      [1 := Some \<lparr>Metric' = [(''job'', ''b'')], Points = [(10, Fin 1)]\<rparr>,
       0 := Some \<lparr>Metric' = [(''job'', ''a'')], Points = [(10, Fin 2), (20, Fin 3)]\<rparr>]"
  let ?vs = "[\<lparr>T = 10, Samples = [\<lparr>ID = 1, Metric = [(''job'', ''b'')], V = Fin 1\<rparr>,
                                   \<lparr>ID = 0, Metric = [(''job'', ''a'')], V = Fin 2\<rparr>]\<rparr>,
              \<lparr>T = 20, Samples = [\<lparr>ID = 0, Metric = [(''job'', ''a'')], V = Fin 3\<rparr>]\<rparr>]"
  have two: "(2::nat) = Suc (Suc 0)" by simp
  have re: "reach (plan ?e) 2 0 (replicate 3000 None) = Some (2, ?sm)"
    unfolding two by (simp add: Let_def)
  have ne: "Next (plan ?e) 2 = ((None, Some ''boom''), 2)" by simp
  have rn: "reach (plan ?n) 2 0 (replicate 3000 None) = Some (2, ?sm)"
    unfolding two by (simp add: Let_def)
  have nn: "Next (plan ?n) 2 = ((None, None), 2)" by simp
  have pr: "produced (plan ?n) 2 0 = ?vs"
    unfolding two by simp
  have "\<forall>i. 2 \<le> i \<longrightarrow> seriesOf i ?vs = None"
    by (simp add: seriesOf_def entries_def)
  then have "accumulatedMatrix ?vs = List.map_filter (\<lambda>i. seriesOf i ?vs) [0..<2]"
    by (intro accumulatedMatrix_below) simp_all
  also have "\<dots> = [\<lparr>Metric' = [(''job'', ''a'')], Points = [(10, Fin 2), (20, Fin 3)]\<rparr>,
                    \<lparr>Metric' = [(''job'', ''b'')], Points = [(10, Fin 1)]\<rparr>]"
    by (simp add: seriesOf_def entries_def upt_rec[of 0] upt_rec[of 1] upt_rec[of "Suc 0"])
  finally have am: "accumulatedMatrix ?vs
      = [\<lparr>Metric' = [(''job'', ''a'')], Points = [(10, Fin 2), (20, Fin 3)]\<rparr>,
         \<lparr>Metric' = [(''job'', ''b'')], Points = [(10, Fin 1)]\<rparr>]" .
  have a: "Exec ?e id 0 = Some (Inr \<lparr>Value = None, Err = Some ''boom''\<rparr>)"
    by (rule Exec_error_or_matrix [of ?e 0 id, THEN conjunct1, rule_format,
          of 2 2 ?sm None "''boom''" 2, OF conjI[OF re ne]])
  have "Exec ?n id 0
      = Some (Inr \<lparr>Value = Some (id (accumulatedMatrix (produced (plan ?n) 2 0))), Err = None\<rparr>)"
    by (rule Exec_error_or_matrix [of ?n 0 id, THEN conjunct2, THEN conjunct1, rule_format,
          of 2 2 ?sm 2, OF conjI[OF rn nn]])
  then have b: "Exec ?n id 0
      = Some (Inr \<lparr>Value = Some [\<lparr>Metric' = [(''job'', ''a'')], Points = [(10, Fin 2), (20, Fin 3)]\<rparr>,
                                 \<lparr>Metric' = [(''job'', ''b'')], Points = [(10, Fin 1)]\<rparr>],
                   Err = None\<rparr>)"
    unfolding pr am by simp
  from a b show ?thesis by (intro conjI)
qed

text \<open>
  C10. The accumulator of \<open>Exec\<close> has the length 3000 at every call of \<open>Next\<close>, and it
  is indexed by the series id without a check: \<open>Exec\<close> panics with an index out of range
  exactly when it reaches a call of \<open>Next\<close> that returns, without error, step vectors
  with a sample whose id is 3000 or more.
\<close>

theorem Exec_seriesMap_bounds:
  "(\<forall>k sk smk. reach (plan q) k s (replicate 3000 None) = Some (sk, smk) \<longrightarrow> length smk = 3000)
   \<and> (Exec q sortMatrix s = Some (Inl IndexOutOfRange) \<longleftrightarrow>
        (\<exists>k sk smk r s'.
            reach (plan q) k s (replicate 3000 None) = Some (sk, smk)
            \<and> Next (plan q) sk = ((Some r, None), s')
            \<and> (\<exists>v\<in>set r. \<exists>x\<in>set (Samples v). 3000 \<le> ID x)))"
proof (intro conjI allI impI iffI)
  fix k sk smk
  assume "reach (plan q) k s (replicate 3000 None) = Some (sk, smk)"
  then show "length smk = 3000"
    using reach_length[of "plan q" k s "replicate 3000 None" sk smk] by simp
next
  assume "\<exists>k sk smk r s'.
            reach (plan q) k s (replicate 3000 None) = Some (sk, smk)
            \<and> Next (plan q) sk = ((Some r, None), s')
            \<and> (\<exists>v\<in>set r. \<exists>x\<in>set (Samples v). 3000 \<le> ID x)"
  then obtain k sk smk r s' where
    x: "reach (plan q) k s (replicate 3000 None) = Some (sk, smk)
            \<and> Next (plan q) sk = ((Some r, None), s')
            \<and> (\<exists>v\<in>set r. \<exists>x\<in>set (Samples v). 3000 \<le> ID x)"
    by (elim exE) (rule that)
  have "length smk = 3000"
    using x reach_length[of "plan q" k s "replicate 3000 None" sk smk] by simp
  then have "addVectors (plan q) r s' smk = Inl IndexOutOfRange"
    using x by (simp add: addVectors_panic_iff)
  then have "execLoop (plan q) sk smk = Some (Inl IndexOutOfRange)"
    using x by (intro execLoop_panic[of "plan q" sk r s' smk]) simp_all
  moreover have "execLoop (plan q) s (replicate 3000 None) = execLoop (plan q) sk smk"
    using x by (intro execLoop_reach) (rule conjunct1)
  ultimately have "execLoop (plan q) s (replicate 3000 None) = Some (Inl IndexOutOfRange)"
    by simp
  then show "Exec q sortMatrix s = Some (Inl IndexOutOfRange)"
    by (rule Exec_cases(2))
next
  assume a: "Exec q sortMatrix s = Some (Inl IndexOutOfRange)"
  have l: "execLoop (plan q) s (replicate 3000 None) = Some (Inl IndexOutOfRange)"
  proof (cases "plan q" s "replicate 3000 (None :: Series option)" rule: execLoop_cases)
    case none
    then show ?thesis using a Exec_cases(1)[OF none, of sortMatrix] by simp
  next
    case panic
    then show ?thesis .
  next
    case (ret res')
    then show ?thesis using a Exec_cases(3)[OF ret, of sortMatrix] by simp
  next
    case (brk sm')
    then show ?thesis using a Exec_cases(4)[OF brk, of sortMatrix] by simp
  qed
  from execLoop_panic_conv[OF l] obtain k sk smk r s' where
    x: "reach (plan q) k s (replicate 3000 None) = Some (sk, smk)
      \<and> Next (plan q) sk = ((Some r, None), s') \<and> addVectors (plan q) r s' smk = Inl IndexOutOfRange"
    by (elim exE) (rule that)
  have "length smk = 3000"
    using x reach_length[of "plan q" k s "replicate 3000 None" sk smk] by simp
  then have "\<exists>v\<in>set r. \<exists>x\<in>set (Samples v). 3000 \<le> ID x"
    using x addVectors_panic_iff[of "plan q" r s' smk] by simp
  with x show "\<exists>k sk smk r s'.
            reach (plan q) k s (replicate 3000 None) = Some (sk, smk)
            \<and> Next (plan q) sk = ((Some r, None), s')
            \<and> (\<exists>v\<in>set r. \<exists>x\<in>set (Samples v). 3000 \<le> ID x)"
    by (rule_tac x=k in exI, rule_tac x=sk in exI, rule_tac x=smk in exI, rule_tac x=r in exI,
        rule_tac x=s' in exI) simp
qed

theorem Exec_seriesMap_bounds_witness:
  "(\<exists>v\<in>set [\<lparr>T = 10, Samples = [\<lparr>ID = 3000, Metric = [], V = Fin 1\<rparr>]\<rparr>].
         \<exists>x\<in>set (Samples v). 3000 \<le> ID x)
   \<and> Exec \<lparr>plan = \<lparr>Next = (\<lambda>n::nat. if n = 0
        then ((Some [\<lparr>T = 10, Samples = [\<lparr>ID = 3000, Metric = [], V = Fin 1\<rparr>]\<rparr>], None), 1)
        else ((None, None), n)), PutSamples = (\<lambda>xs n. n), PutVectors = (\<lambda>r n. n)\<rparr>\<rparr>
      id 0 = Some (Inl IndexOutOfRange)"
proof -
  let ?q = "\<lparr>plan = \<lparr>Next = (\<lambda>n::nat. if n = 0
        then ((Some [\<lparr>T = 10, Samples = [\<lparr>ID = 3000, Metric = [], V = Fin 1\<rparr>]\<rparr>], None), 1)
        else ((None, None), n)), PutSamples = (\<lambda>xs n. n), PutVectors = (\<lambda>r n. n)\<rparr>\<rparr>"
  let ?r = "[\<lparr>T = 10, Samples = [\<lparr>ID = 3000, Metric = [], V = Fin 1\<rparr>]\<rparr>]"
  have b: "\<exists>v\<in>set ?r. \<exists>x\<in>set (Samples v). 3000 \<le> ID x" by simp
  have "reach (plan ?q) 0 0 (replicate 3000 None) = Some (0, replicate 3000 None)
      \<and> Next (plan ?q) 0 = ((Some ?r, None), 1)
      \<and> (\<exists>v\<in>set ?r. \<exists>x\<in>set (Samples v). 3000 \<le> ID x)"
    by simp
  then have "\<exists>k sk smk r s'.
            reach (plan ?q) k 0 (replicate 3000 None) = Some (sk, smk)
            \<and> Next (plan ?q) sk = ((Some r, None), s')
            \<and> (\<exists>v\<in>set r. \<exists>x\<in>set (Samples v). 3000 \<le> ID x)"
    by (rule_tac x=0 in exI, rule_tac x=0 in exI, rule_tac x="replicate 3000 None" in exI,
        rule_tac x="?r" in exI, rule_tac x=1 in exI)
  then have "Exec ?q id 0 = Some (Inl IndexOutOfRange)"
    by (rule Exec_seriesMap_bounds [of ?q 0 id, THEN conjunct2, THEN iffD2])
  with b show ?thesis by (intro conjI)
qed

end
